theory Spec2Isabelle
  imports Main "HOL-Library.Sublist" "HOL-Library.AList"
begin

section \<open>Text, bytes and number formatting\<close>

text \<open>
  A Python \<open>str\<close> is a sequence of Unicode code points: it is modelled as a list of
  natural numbers. A Python \<open>bytes\<close> value is a list of 8-bit characters, which is what
  an Isabelle \<open>string\<close> is. \<open>ustr\<close> turns an ASCII literal into the \<open>str\<close> it denotes.
\<close>

type_synonym ustring = "nat list"
type_synonym bytes = string

definition ustr :: "string \<Rightarrow> ustring" where
  "ustr s = map of_char s"

text \<open>\<open>s.encode('latin-1', errors='replace')\<close>: one byte per code point, \<open>?\<close> for a
  code point that Latin-1 does not have.\<close>

definition encode_latin1 :: "ustring \<Rightarrow> bytes" where
  "encode_latin1 s = map (\<lambda>c. if c < 256 then char_of c else CHR ''?'') s"

text \<open>\<open>sep.join(parts)\<close>.\<close>

fun join :: "'a list \<Rightarrow> 'a list list \<Rightarrow> 'a list" where
  "join sep [] = []"
| "join sep [p] = p"
| "join sep (p # q # ps) = p @ sep @ join sep (q # ps)"

text \<open>The decimal digit \<open>d < 10\<close> as a character.\<close>

definition digit :: "nat \<Rightarrow> char" where
  "digit d = ''0123456789'' ! d"

text \<open>\<open>str(n)\<close> for an integer \<open>n \<ge> 0\<close>, and for any integer.\<close>

fun str_nat :: "nat \<Rightarrow> string" where
  "str_nat n = (if n < 10 then [digit n] else str_nat (n div 10) @ [digit (n mod 10)])"

declare str_nat.simps [simp del]

definition str_int :: "int \<Rightarrow> string" where
  "str_int i = (if i < 0 then CHR ''-'' # str_nat (nat (- i)) else str_nat (nat i))"

text \<open>\<open>f"{off:010d}"\<close> for \<open>off \<ge> 0\<close>: zero-padded on the left to at least ten digits.\<close>

definition fmt_010d :: "nat \<Rightarrow> string" where
  "fmt_010d n = replicate (10 - length (str_nat n)) (CHR ''0'') @ str_nat n"

text \<open>
  \<open>f"{v:.2f}"\<close>. The coordinates the layouts pass are Python integers, printed with
  \<open>.00\<close>. A font size is a float literal with at most two decimals (9.4, 9.5, 11.5, 18):
  it is held in hundredths of a point, and \<open>.2f\<close> prints those two decimals.
\<close>

definition fmt_2f_int :: "int \<Rightarrow> string" where
  "fmt_2f_int v = str_int v @ ''.00''"

definition fmt_2f_centi :: "nat \<Rightarrow> string" where
  "fmt_2f_centi h = str_nat (h div 100) @ ''.'' @ [digit (h mod 100 div 10), digit (h mod 10)]"

section \<open>Page geometry\<close>

text \<open>Both generators use the same page size and top margin; the left and bottom
  margins differ (\<open>50\<close>/\<open>42\<close> in the one-page summary, \<open>48\<close>/\<open>46\<close> in the
  walkthrough).\<close>

definition PAGE_WIDTH :: nat where "PAGE_WIDTH = 612"
definition PAGE_HEIGHT :: nat where "PAGE_HEIGHT = 792"
definition TOP :: int where "TOP = 760"
definition S_LEFT :: int where "S_LEFT = 50"
definition S_BOTTOM :: int where "S_BOTTOM = 42"
definition W_LEFT :: int where "W_LEFT = 48"
definition W_BOTTOM :: int where "W_BOTTOM = 46"

section \<open>Text Escaper: \<open>pdf_escape\<close>\<close>

text \<open>\<open>text.replace(old, new)\<close> where \<open>old\<close> is a single character.\<close>

definition replace_char :: "nat \<Rightarrow> ustring \<Rightarrow> ustring \<Rightarrow> ustring" where
  "replace_char old new s = concat (map (\<lambda>c. if c = old then new else [c]) s)"

text \<open>Code points: backslash is 92, \<open>(\<close> is 40, \<open>)\<close> is 41.\<close>

definition pdf_escape :: "ustring \<Rightarrow> ustring" where
  "pdf_escape t =
     replace_char 41 [92, 41] (replace_char 40 [92, 40] (replace_char 92 [92, 92] t))"

text \<open>
  The specification's reading of the escaper, character by character, and the two
  notions its properties use: undoing the escapes, and having no parenthesis outside an
  escape pair. These three follow the specification's words, not the source.
\<close>

definition spec_escape_char :: "nat \<Rightarrow> ustring" where
  "spec_escape_char c = (if c = 92 then [92, 92] else if c = 40 then [92, 40]
                         else if c = 41 then [92, 41] else [c])"

fun spec_unescape :: "ustring \<Rightarrow> ustring" where
  "spec_unescape [] = []"
| "spec_unescape [c] = [c]"
| "spec_unescape (c # d # r) =
     (if c = 92 then d # spec_unescape r else c # spec_unescape (d # r))"

fun spec_no_bare_paren :: "ustring \<Rightarrow> bool" where
  "spec_no_bare_paren [] = True"
| "spec_no_bare_paren [c] = (c \<noteq> 40 \<and> c \<noteq> 41)"
| "spec_no_bare_paren (c # d # r) =
     (if c = 92 then spec_no_bare_paren r
      else c \<noteq> 40 \<and> c \<noteq> 41 \<and> spec_no_bare_paren (d # r))"

section \<open>Document Assembler\<close>

subsection \<open>Draw commands\<close>

text \<open>
  The command string both \<open>PDFBuilder.text\<close> methods format:
  \<open>f"BT /{font} {size:.2f} Tf {x:.2f} {y:.2f} Td ({safe}) Tj ET"\<close>, where \<open>safe\<close> is the
  text put between the parentheses.
\<close>

definition text_command :: "ustring \<Rightarrow> nat \<Rightarrow> int \<Rightarrow> int \<Rightarrow> ustring \<Rightarrow> ustring" where
  "text_command font fsize x y safe =
     ustr ''BT /'' @ font @ ustr '' '' @ ustr (fmt_2f_centi fsize) @ ustr '' Tf ''
     @ ustr (fmt_2f_int x) @ ustr '' '' @ ustr (fmt_2f_int y) @ ustr '' Td (''
     @ safe @ ustr '') Tj ET''"

subsection \<open>Parts shared by the two \<open>build\<close> methods\<close>

definition pdf_header :: bytes where
  "pdf_header = ''%PDF-1.4'' @ [CHR 0x0A, CHR ''%'', CHR 0xE2, CHR 0xE3, CHR 0xCF, CHR 0xD3, CHR 0x0A]"

definition prolog :: "ustring list" where
  "prolog = [ustr (''q 1 1 1 rg 0 0 '' @ str_nat PAGE_WIDTH @ '' '' @ str_nat PAGE_HEIGHT @ '' re f Q''),
             ustr ''0 0 0 rg'']"

definition free_entry :: bytes where
  "free_entry = ''0000000000 65535 f '' @ [CHR 0x0A]"

definition used_entry :: "nat \<Rightarrow> bytes" where
  "used_entry off = fmt_010d off @ '' 00000 n '' @ [CHR 0x0A]"

definition xref_head :: "nat \<Rightarrow> bytes" where
  "xref_head n = ''xref'' @ [CHR 0x0A] @ ''0 '' @ str_nat n @ [CHR 0x0A]"

definition trailer :: "nat \<Rightarrow> nat \<Rightarrow> bytes" where
  "trailer n xref_start =
     ''trailer << /Size '' @ str_nat n @ '' /Root 1 0 R >>'' @ [CHR 0x0A] @ ''startxref''
     @ [CHR 0x0A] @ str_nat xref_start @ [CHR 0x0A] @ ''%%EOF'' @ [CHR 0x0A]"

definition font_object :: "nat \<Rightarrow> string \<Rightarrow> bytes" where
  "font_object k base =
     str_nat k @ '' 0 obj << /Type /Font /Subtype /Type1 /BaseFont /'' @ base @ '' >> endobj''
     @ [CHR 0x0A]"

definition catalog_object :: bytes where
  "catalog_object = ''1 0 obj << /Type /Catalog /Pages 2 0 R >> endobj'' @ [CHR 0x0A]"

definition content_object :: "nat \<Rightarrow> bytes \<Rightarrow> bytes" where
  "content_object k stream =
     str_nat k @ '' 0 obj << /Length '' @ str_nat (length stream) @ '' >> stream'' @ [CHR 0x0A]
     @ stream @ [CHR 0x0A] @ ''endstream endobj'' @ [CHR 0x0A]"

text \<open>The token an object's bytes begin with, as the specification names it.\<close>

definition obj_token :: "nat \<Rightarrow> bytes" where
  "obj_token k = str_nat k @ '' 0 obj''"

text \<open>What each \<open>build\<close> has written between the objects and the trailer, for a list of
  offsets: the head line, the free entry, and the entries of the loop
  \<open>for off in xref_offsets[1:]\<close>. It is a name for the proofs, made of the source's own
  formatting; the layout the specification asks for is \<open>spec_indexed\<close> below.\<close>

definition xref_table :: "nat list \<Rightarrow> bytes" where
  "xref_table offs = xref_head (length offs) @ free_entry @ concat (map used_entry (tl offs))"

subsection \<open>One-page summary: \<open>PDFBuilder\<close> of \<open>generate_app_summary_pdf.py\<close>\<close>

text \<open>The builder's state is its list \<open>commands\<close>. \<open>text\<close> escapes its text and appends
  the formatted command.\<close>

definition s_text :: "ustring list \<Rightarrow> int \<Rightarrow> int \<Rightarrow> ustring \<Rightarrow> ustring \<Rightarrow> nat \<Rightarrow> ustring list" where
  "s_text commands x y t font fsize = commands @ [text_command font fsize x y (pdf_escape t)]"

definition s_stream :: "ustring list \<Rightarrow> bytes" where
  "s_stream commands = encode_latin1 (join [10] (prolog @ commands))"

definition s_page_object :: bytes where
  "s_page_object =
     ''3 0 obj << /Type /Page /Parent 2 0 R /MediaBox [0 0 '' @ str_nat PAGE_WIDTH @ '' ''
     @ str_nat PAGE_HEIGHT @ ''] ''
     @ ''/Resources << /Font << /F1 4 0 R /F2 5 0 R /F3 6 0 R >> >> /Contents 7 0 R >> endobj''
     @ [CHR 0x0A]"

definition s_objects :: "ustring list \<Rightarrow> bytes list" where
  "s_objects commands =
     [catalog_object,
      ''2 0 obj << /Type /Pages /Count 1 /Kids [3 0 R] >> endobj'' @ [CHR 0x0A],
      s_page_object,
      font_object 4 ''Helvetica'',
      font_object 5 ''Helvetica-Bold'',
      font_object 6 ''Helvetica-Oblique'',
      content_object 7 (s_stream commands)]"

text \<open>\<open>for obj in objects: xref_offsets.append(len(pdf)); pdf.extend(obj)\<close>, on the pair
  \<open>(pdf, xref_offsets)\<close>.\<close>

fun s_emit :: "bytes list \<Rightarrow> bytes \<times> nat list \<Rightarrow> bytes \<times> nat list" where
  "s_emit [] st = st"
| "s_emit (obj # objs) (pdf, xref_offsets) = s_emit objs (pdf @ obj, xref_offsets @ [length pdf])"

text \<open>\<open>for off in xref_offsets[1:]: pdf.extend(f"{off:010d} 00000 n \n")\<close>.\<close>

fun s_emit_xref :: "nat list \<Rightarrow> bytes \<Rightarrow> bytes" where
  "s_emit_xref [] pdf = pdf"
| "s_emit_xref (off # offs) pdf = s_emit_xref offs (pdf @ used_entry off)"

definition s_emitted :: "ustring list \<Rightarrow> bytes \<times> nat list" where
  "s_emitted commands = s_emit (s_objects commands) (pdf_header, [0])"

definition s_xref_offsets :: "ustring list \<Rightarrow> nat list" where
  "s_xref_offsets commands = snd (s_emitted commands)"

definition s_build_bytes :: "ustring list \<Rightarrow> bytes" where
  "s_build_bytes commands =
     (let (pdf, xref_offsets) = s_emitted commands;
          xref_start = length pdf;
          pdf = pdf @ xref_head (length xref_offsets);
          pdf = pdf @ free_entry;
          pdf = s_emit_xref (tl xref_offsets) pdf
      in pdf @ trailer (length xref_offsets) xref_start)"

subsection \<open>Multi-page walkthrough: \<open>PDFBuilder\<close> of \<open>generate_technical_walkthrough_pdf.py\<close>\<close>

text \<open>
  The builder's state is its list \<open>pages\<close> of command lists; \<open>text\<close> appends to the
  last page (\<open>self.pages[self.page_index]\<close> with \<open>page_index = len(self.pages) - 1\<close>, an
  \<open>IndexError\<close> on an empty list). The dictionary \<open>objects\<close> is an association list in
  insertion order, as a Python \<open>dict\<close> is.
\<close>

datatype error = ContentOverflow | InvalidWidth | IndexError

definition new_page :: "ustring list list \<Rightarrow> ustring list list" where
  "new_page pages = pages @ [[]]"

definition w_text ::
  "ustring list list \<Rightarrow> int \<Rightarrow> int \<Rightarrow> ustring \<Rightarrow> ustring \<Rightarrow> nat \<Rightarrow> error + ustring list list" where
  "w_text pages x y t font fsize =
     (if pages = [] then Inl IndexError
      else Inr (pages[length pages - 1 :=
                  pages ! (length pages - 1) @ [text_command font fsize x y (pdf_escape t)]]))"

definition w_footer :: "nat \<Rightarrow> nat \<Rightarrow> ustring" where
  "w_footer idx n_pages =
     ustr (''BT /F1 9 Tf '' @ fmt_2f_int W_LEFT @ '' 26.00 Td (Page '' @ str_nat idx @ '' of ''
           @ str_nat n_pages @ '') Tj ET'')"

definition w_stream :: "nat \<Rightarrow> nat \<Rightarrow> ustring list \<Rightarrow> bytes" where
  "w_stream idx n_pages commands = encode_latin1 (join [10] (prolog @ commands @ [w_footer idx n_pages]))"

definition w_page_object :: "nat \<Rightarrow> nat \<Rightarrow> bytes" where
  "w_page_object page_obj content_obj =
     str_nat page_obj @ '' 0 obj << /Type /Page /Parent 2 0 R ''
     @ ''/MediaBox [0 0 '' @ str_nat PAGE_WIDTH @ '' '' @ str_nat PAGE_HEIGHT @ ''] ''
     @ ''/Resources << /Font << /F1 3 0 R /F2 4 0 R /F3 5 0 R /F4 6 0 R >> >> ''
     @ ''/Contents '' @ str_nat content_obj @ '' 0 R >> endobj'' @ [CHR 0x0A]"

definition w_pages_object :: "string list \<Rightarrow> bytes" where
  "w_pages_object page_kids =
     ''2 0 obj << /Type /Pages /Count '' @ str_nat (length page_kids) @ '' /Kids [''
     @ join '' '' page_kids @ ''] >> endobj'' @ [CHR 0x0A]"

text \<open>\<open>for idx, commands in enumerate(self.pages, start=1)\<close>, on the triple
  \<open>(objects, page_kids, next_obj)\<close>; \<open>n_pages\<close> is \<open>len(self.pages)\<close>.\<close>

fun w_page_loop ::
  "nat \<Rightarrow> nat \<Rightarrow> ustring list list \<Rightarrow> (nat \<times> bytes) list \<times> string list \<times> nat
     \<Rightarrow> (nat \<times> bytes) list \<times> string list \<times> nat" where
  "w_page_loop n_pages idx [] st = st"
| "w_page_loop n_pages idx (commands # rest) (objects, page_kids, next_obj) =
     (let page_obj = next_obj;
          content_obj = next_obj + 1;
          objects = AList.update page_obj (w_page_object page_obj content_obj) objects;
          objects = AList.update content_obj
                      (content_object content_obj (w_stream idx n_pages commands)) objects
      in w_page_loop n_pages (idx + 1) rest
           (objects, page_kids @ [str_nat page_obj @ '' 0 R''], next_obj + 2))"

definition w_fixed_objects :: "(nat \<times> bytes) list" where
  "w_fixed_objects =
     AList.update 6 (font_object 6 ''Courier'')
       (AList.update 5 (font_object 5 ''Helvetica-Oblique'')
         (AList.update 4 (font_object 4 ''Helvetica-Bold'')
           (AList.update 3 (font_object 3 ''Helvetica'')
             (AList.update 1 catalog_object []))))"

definition w_objects :: "ustring list list \<Rightarrow> (nat \<times> bytes) list" where
  "w_objects pages =
     (let (objects, page_kids, next_obj) = w_page_loop (length pages) 1 pages (w_fixed_objects, [], 7)
      in AList.update 2 (w_pages_object page_kids) objects)"

definition max_key :: "(nat \<times> bytes) list \<Rightarrow> nat" where
  "max_key objects = Max (set (map fst objects))"

text \<open>\<open>for obj_num in range(1, max_obj + 1)\<close>: an id with no object is skipped, the
  others record \<open>len(pdf)\<close> at their index and are appended.\<close>

fun w_emit :: "(nat \<times> bytes) list \<Rightarrow> nat list \<Rightarrow> bytes \<times> nat list \<Rightarrow> bytes \<times> nat list" where
  "w_emit objects [] st = st"
| "w_emit objects (obj_num # nums) (pdf, xref_offsets) =
     (case map_of objects obj_num of
        None \<Rightarrow> w_emit objects nums (pdf, xref_offsets)
      | Some obj \<Rightarrow> w_emit objects nums (pdf @ obj, xref_offsets[obj_num := length pdf]))"

text \<open>The second loop over the ids: offset 0 means "no object" and gives a free entry.\<close>

fun w_emit_xref :: "nat list \<Rightarrow> nat list \<Rightarrow> bytes \<Rightarrow> bytes" where
  "w_emit_xref xref_offsets [] pdf = pdf"
| "w_emit_xref xref_offsets (obj_num # nums) pdf =
     (let off = xref_offsets ! obj_num
      in if off = 0 then w_emit_xref xref_offsets nums (pdf @ free_entry)
         else w_emit_xref xref_offsets nums (pdf @ used_entry off))"

text \<open>The second half of \<open>build\<close>, from \<open>max_obj = max(objects.keys())\<close> on: it reads
  the dictionary by key only.\<close>

definition w_emitted_of :: "(nat \<times> bytes) list \<Rightarrow> bytes \<times> nat list" where
  "w_emitted_of objects =
     (let max_obj = max_key objects
      in w_emit objects [1..<max_obj + 1] (pdf_header, replicate (max_obj + 1) 0))"

definition w_serialize :: "(nat \<times> bytes) list \<Rightarrow> bytes" where
  "w_serialize objects =
     (let max_obj = max_key objects;
          (pdf, xref_offsets) = w_emitted_of objects;
          xref_start = length pdf;
          pdf = pdf @ xref_head (max_obj + 1);
          pdf = pdf @ free_entry;
          pdf = w_emit_xref xref_offsets [1..<max_obj + 1] pdf
      in pdf @ trailer (max_obj + 1) xref_start)"

definition w_emitted :: "ustring list list \<Rightarrow> bytes \<times> nat list" where
  "w_emitted pages = w_emitted_of (w_objects pages)"

definition w_xref_offsets :: "ustring list list \<Rightarrow> nat list" where
  "w_xref_offsets pages = snd (w_emitted pages)"

definition w_build_bytes :: "ustring list list \<Rightarrow> bytes" where
  "w_build_bytes pages = w_serialize (w_objects pages)"

section \<open>Line Wrapper: \<open>textwrap.wrap\<close>\<close>

text \<open>
  Both layouts wrap with \<open>textwrap.wrap(text, width=width_chars)\<close> of the Python standard
  library, every other option at its default: tabs expanded (tab size 8), whitespace
  replaced by spaces, chunks split at whitespace, hyphens and dashes, long words broken,
  whitespace dropped at line ends, no indent and no line limit. The model follows
  \<open>TextWrapper\<close> of CPython 3.11 method by method, with these defaults inlined.

  The regular expression of \<open>_split\<close> uses the Unicode classes \<open>\w\<close> and \<open>\d\<close>, which
  are tables of the interpreter's Unicode database: they are a parameter of the model.
\<close>

record charclasses =
  cc_word :: "nat \<Rightarrow> bool"
  cc_digit :: "nat \<Rightarrow> bool"

text \<open>The two classes on the Latin-1 range (code points below 256), as CPython has them.\<close>

definition latin1_classes :: charclasses where
  "latin1_classes =
     \<lparr> cc_word = (\<lambda>c. (48 \<le> c \<and> c \<le> 57) \<or> (65 \<le> c \<and> c \<le> 90) \<or> c = 95
                      \<or> (97 \<le> c \<and> c \<le> 122) \<or> c = 170 \<or> c = 178 \<or> c = 179 \<or> c = 181
                      \<or> c = 185 \<or> c = 186 \<or> (188 \<le> c \<and> c \<le> 190)
                      \<or> (192 \<le> c \<and> c \<le> 214) \<or> (216 \<le> c \<and> c \<le> 246)
                      \<or> (248 \<le> c \<and> c \<le> 255)),
       cc_digit = (\<lambda>c. 48 \<le> c \<and> c \<le> 57) \<rparr>"

text \<open>\<open>_whitespace = '\t\n\x0b\x0c\r '\<close>: the characters the wrapper takes as whitespace.\<close>

definition is_ws :: "nat \<Rightarrow> bool" where
  "is_ws c = (c = 9 \<or> c = 10 \<or> c = 11 \<or> c = 12 \<or> c = 13 \<or> c = 32)"

text \<open>\<open>str.isspace\<close> on one character, which decides \<open>chunk.strip() == ''\<close>.\<close>

definition py_isspace :: "nat \<Rightarrow> bool" where
  "py_isspace c = ((9 \<le> c \<and> c \<le> 13) \<or> (28 \<le> c \<and> c \<le> 32) \<or> c = 133 \<or> c = 160
                   \<or> c = 5760 \<or> (8192 \<le> c \<and> c \<le> 8202) \<or> c = 8232 \<or> c = 8233
                   \<or> c = 8239 \<or> c = 8287 \<or> c = 12288)"

definition strip_is_empty :: "ustring \<Rightarrow> bool" where
  "strip_is_empty chunk = list_all py_isspace chunk"

subsection \<open>\<open>_munge_whitespace\<close>\<close>

text \<open>\<open>text.expandtabs(tabsize)\<close>, with the column counted from the last line break.\<close>

fun expandtabs :: "nat \<Rightarrow> nat \<Rightarrow> ustring \<Rightarrow> ustring" where
  "expandtabs tabsize col [] = []"
| "expandtabs tabsize col (c # s) =
     (if c = 9 then
        (if tabsize > 0
         then replicate (tabsize - col mod tabsize) 32
              @ expandtabs tabsize (col + (tabsize - col mod tabsize)) s
         else expandtabs tabsize col s)
      else if c = 10 \<or> c = 13 then c # expandtabs tabsize 0 s
      else c # expandtabs tabsize (col + 1) s)"

definition munge_whitespace :: "ustring \<Rightarrow> ustring" where
  "munge_whitespace t = map (\<lambda>c. if is_ws c then 32 else c) (expandtabs 8 0 t)"

subsection \<open>\<open>_split\<close>: splitting at \<open>wordsep_re\<close>\<close>

text \<open>
  The pattern has three alternatives, tried in this order at a position \<open>i\<close>: a run of
  whitespace; a run of two or more dashes after a word-or-punctuation character and
  before a word character; a word, which is the shortest non-empty run of
  non-whitespace ending just after a hyphen inside a hyphenated word, or at whitespace
  or the end of the text, or before such a run of dashes. One of them matches at every
  position, so \<open>split\<close> returns the matches themselves, one after the other.
\<close>

definition holds_at :: "(nat \<Rightarrow> bool) \<Rightarrow> ustring \<Rightarrow> nat \<Rightarrow> bool" where
  "holds_at P t i = (i < length t \<and> P (t ! i))"

text \<open>\<open>word_punct = [\w!"'&.,?]\<close> and \<open>letter = [^\d\W]\<close>.\<close>

definition is_word_punct :: "charclasses \<Rightarrow> nat \<Rightarrow> bool" where
  "is_word_punct cc c =
     (cc_word cc c \<or> c = 33 \<or> c = 34 \<or> c = 39 \<or> c = 38 \<or> c = 46 \<or> c = 44 \<or> c = 63)"

definition is_letter :: "charclasses \<Rightarrow> nat \<Rightarrow> bool" where
  "is_letter cc c = (cc_word cc c \<and> \<not> cc_digit cc c)"

definition dash_run :: "ustring \<Rightarrow> nat \<Rightarrow> nat" where
  "dash_run t i = length (takeWhile (\<lambda>c. c = 45) (drop i t))"

text \<open>\<open>-{2,}(?=\w)\<close> at \<open>i\<close>: the dashes are matched greedily, and giving one back
  leaves a dash, not a word character, in front.\<close>

definition dashes_at :: "charclasses \<Rightarrow> ustring \<Rightarrow> nat \<Rightarrow> bool" where
  "dashes_at cc t i = (2 \<le> dash_run t i \<and> holds_at (cc_word cc) t (i + dash_run t i))"

text \<open>\<open>-(?:(?<=lt{2}-)|(?<=lt-lt-))(?=lt-?lt)\<close> with the hyphen at \<open>j\<close>.\<close>

definition hyphen_break :: "charclasses \<Rightarrow> ustring \<Rightarrow> nat \<Rightarrow> bool" where
  "hyphen_break cc t j =
     (holds_at (\<lambda>c. c = 45) t j
      \<and> ((2 \<le> j \<and> is_letter cc (t ! (j - 2)) \<and> is_letter cc (t ! (j - 1)))
         \<or> (3 \<le> j \<and> is_letter cc (t ! (j - 3)) \<and> t ! (j - 2) = 45 \<and> is_letter cc (t ! (j - 1))))
      \<and> holds_at (is_letter cc) t (j + 1)
      \<and> ((holds_at (\<lambda>c. c = 45) t (j + 2) \<and> holds_at (is_letter cc) t (j + 3))
         \<or> holds_at (is_letter cc) t (j + 2)))"

text \<open>\<open>(?=ws|\Z)\<close> and \<open>(?<=wp)(?=-{2,}\w)\<close> at \<open>j\<close>.\<close>

definition end_of_word :: "ustring \<Rightarrow> nat \<Rightarrow> bool" where
  "end_of_word t j = (length t \<le> j \<or> is_ws (t ! j))"

definition dashes_ahead :: "charclasses \<Rightarrow> ustring \<Rightarrow> nat \<Rightarrow> bool" where
  "dashes_ahead cc t j = (0 < j \<and> is_word_punct cc (t ! (j - 1)) \<and> dashes_at cc t j)"

text \<open>The end of the word alternative, the lazy run having reached \<open>j\<close>.\<close>

function word_end :: "charclasses \<Rightarrow> ustring \<Rightarrow> nat \<Rightarrow> nat" where
  "word_end cc t j =
     (if hyphen_break cc t j then j + 1
      else if end_of_word t j then j
      else if dashes_ahead cc t j then j
      else word_end cc t (j + 1))"
  by pat_completeness auto
termination
  by (relation "measure (\<lambda>(cc, t, j). length t - j)") (auto simp: end_of_word_def)

declare word_end.simps [simp del]

text \<open>The end of the match that starts at \<open>i < len(t)\<close>.\<close>

definition match_end :: "charclasses \<Rightarrow> ustring \<Rightarrow> nat \<Rightarrow> nat" where
  "match_end cc t i =
     (if is_ws (t ! i) then i + length (takeWhile is_ws (drop i t))
      else if 0 < i \<and> is_word_punct cc (t ! (i - 1)) \<and> dashes_at cc t i then i + dash_run t i
      else word_end cc t (i + 1))"

lemma word_end_ge: "j \<le> word_end cc t j"
proof (induction cc t j rule: word_end.induct)
  case (1 cc t j)
  then show ?case by (subst word_end.simps) auto
qed

lemma match_end_gt: "i < length t \<Longrightarrow> i < match_end cc t i"
proof -
  assume i: "i < length t"
  have ws: "is_ws (t ! i) \<Longrightarrow> 0 < length (takeWhile is_ws (drop i t))"
    using i Cons_nth_drop_Suc [of i t, symmetric] by simp
  have "dashes_at cc t i \<Longrightarrow> 0 < dash_run t i"
    by (simp add: dashes_at_def)
  moreover have "i + 1 \<le> word_end cc t (i + 1)" by (rule word_end_ge)
  ultimately show ?thesis using ws by (auto simp: match_end_def)
qed

function split_from :: "charclasses \<Rightarrow> ustring \<Rightarrow> nat \<Rightarrow> ustring list" where
  "split_from cc t i =
     (if i < length t
      then take (match_end cc t i - i) (drop i t) # split_from cc t (match_end cc t i)
      else [])"
  by pat_completeness auto
termination
  by (relation "measure (\<lambda>(cc, t, i). length t - i)") (auto simp: match_end_gt diff_less_mono2)

declare split_from.simps [simp del]

text \<open>\<open>chunks = wordsep_re.split(text); chunks = [c for c in chunks if c]\<close>.\<close>

definition split_chunks :: "charclasses \<Rightarrow> ustring \<Rightarrow> ustring list" where
  "split_chunks cc t = filter (\<lambda>c. c \<noteq> []) (split_from cc (munge_whitespace t) 0)"


subsection \<open>\<open>_wrap_chunks\<close> and \<open>_handle_long_word\<close>\<close>

text \<open>
  The chunks are kept in reading order: the head of the list is \<open>chunks[-1]\<close> of the
  reversed stack the source pops from. The loop runs only after the check
  \<open>self.width <= 0\<close> has passed, so its width is a natural number.
\<close>

text \<open>The inner loop: chunks go to the current line while they fit.\<close>

fun take_fitting ::
  "nat \<Rightarrow> ustring list \<Rightarrow> nat \<Rightarrow> ustring list \<Rightarrow> ustring list \<times> nat \<times> ustring list" where
  "take_fitting width cur_line cur_len [] = (cur_line, cur_len, [])"
| "take_fitting width cur_line cur_len (c # chunks) =
     (if cur_len + length c \<le> width
      then take_fitting width (cur_line @ [c]) (cur_len + length c) chunks
      else (cur_line, cur_len, c # chunks))"

text \<open>\<open>chunk.rfind('-', 0, end)\<close>: the last index below \<open>end\<close> that holds a hyphen,
  or \<open>-1\<close>.\<close>

fun rfind_hyphen :: "ustring \<Rightarrow> nat \<Rightarrow> int" where
  "rfind_hyphen chunk 0 = - 1"
| "rfind_hyphen chunk (Suc e) =
     (if e < length chunk \<and> chunk ! e = 45 then int e else rfind_hyphen chunk e)"

text \<open>\<open>_handle_long_word\<close> with \<open>break_long_words\<close> and \<open>break_on_hyphens\<close> set: it is
  called with a chunk on the stack and returns the line and the stack.\<close>

fun handle_long_word ::
  "ustring list \<Rightarrow> ustring list \<Rightarrow> nat \<Rightarrow> nat \<Rightarrow> ustring list \<times> ustring list" where
  "handle_long_word [] cur_line cur_len width = (cur_line, [])"
| "handle_long_word (chunk # chunks) cur_line cur_len width =
     (let space_left = (if width < 1 then 1 else width - cur_len);
          hyphen = rfind_hyphen chunk space_left;
          end = (if length chunk > space_left \<and> hyphen > 0
                    \<and> list_ex (\<lambda>c. c \<noteq> 45) (take (nat hyphen) chunk)
                 then nat hyphen + 1 else space_left)
      in (cur_line @ [take end chunk], drop end chunk # chunks))"

text \<open>One pass of the outer loop: the chunks of the line it builds, and the stack left.
  \<open>started\<close> says whether \<open>lines\<close> is non-empty.\<close>

definition wrap_line :: "nat \<Rightarrow> bool \<Rightarrow> ustring list \<Rightarrow> ustring list \<times> ustring list" where
  "wrap_line width started chunks =
     (let chunks = (if strip_is_empty (hd chunks) \<and> started then tl chunks else chunks);
          (cur_line, cur_len, chunks) = take_fitting width [] 0 chunks;
          (cur_line, chunks) =
             (if chunks \<noteq> [] \<and> length (hd chunks) > width
              then handle_long_word chunks cur_line cur_len width
              else (cur_line, chunks));
          cur_line = (if cur_line \<noteq> [] \<and> strip_is_empty (last cur_line)
                      then butlast cur_line else cur_line)
      in (cur_line, chunks))"


text \<open>The loop ends: every pass removes a chunk from the stack or shortens its first
  chunk. \<open>msr\<close> counts the chunks and their characters.\<close>

definition msr :: "ustring list \<Rightarrow> nat" where "msr chunks = length chunks + length (concat chunks)"

lemma take_fitting_spec:
  "take_fitting w cl n cs = (cl', n', cs') \<Longrightarrow>
     \<exists>pre. cs = pre @ cs' \<and> cl' = cl @ pre \<and> n' = n + length (concat pre)
         \<and> (pre \<noteq> [] \<longrightarrow> n' \<le> w) \<and> (cs' \<noteq> [] \<longrightarrow> w < n' + length (hd cs'))"
proof (induction cs arbitrary: cl n)
  case Nil
  then show ?case by simp
next
  case (Cons c cs)
  show ?case
  proof (cases "n + length c \<le> w")
    case True
    with Cons.prems have "take_fitting w (cl @ [c]) (n + length c) cs = (cl', n', cs')" by simp
    from Cons.IH [OF this] obtain pre where
      p: "cs = pre @ cs'" "cl' = (cl @ [c]) @ pre" "n' = n + length c + length (concat pre)"
         "pre \<noteq> [] \<longrightarrow> n' \<le> w" "cs' \<noteq> [] \<longrightarrow> w < n' + length (hd cs')" by blast
    have "n' \<le> w" using p(3,4) True by (cases "pre = []") auto
    with p show ?thesis by (intro exI [of _ "c # pre"]) auto
  next
    case False
    with Cons.prems show ?thesis by (intro exI [of _ "[]"]) auto
  qed
qed

lemma rfind_hyphen_lt: "rfind_hyphen chunk e < int e"
  by (induction e) auto


lemma msr_Cons: "msr (c # cs) = 1 + length c + msr cs"
  by (simp add: msr_def)

lemma msr_append: "msr (xs @ ys) = msr xs + msr ys"
  by (simp add: msr_def)

lemma msr_Nil_iff: "msr xs = 0 \<longleftrightarrow> xs = []"
  by (cases xs) (simp_all add: msr_def)

lemma handle_long_word_msr: "msr (snd (handle_long_word cs cl n w)) \<le> msr cs"
  by (cases cs) (simp_all add: msr_Cons Let_def)

lemma handle_long_word_msr_strict:
  assumes "cs \<noteq> []" and "w < length (hd cs)"
  shows "msr (snd (handle_long_word cs cl 0 w)) < msr cs"
proof -
  obtain c rest where cs: "cs = c # rest" using assms(1) by (cases cs) auto
  have "0 < length c" using assms(2) cs by (cases c) simp_all
  then show ?thesis by (auto simp: cs msr_Cons Let_def)
qed

lemma msr_tl: "chunks \<noteq> [] \<Longrightarrow> msr (tl chunks) < msr chunks"
  by (cases chunks) (simp_all add: msr_Cons)

lemma wrap_line_snd:
  assumes "take_fitting w [] 0 (if strip_is_empty (hd chunks) \<and> started then tl chunks else chunks)
             = (cl, n, cs2)"
  shows "snd (wrap_line w started chunks)
           = (if cs2 \<noteq> [] \<and> length (hd cs2) > w then snd (handle_long_word cs2 cl n w) else cs2)"
  using assms by (simp add: wrap_line_def Let_def split: prod.splits)

lemma wrap_line_decreases:
  assumes "chunks \<noteq> []"
  shows "msr (snd (wrap_line w started chunks)) < msr chunks"
proof -
  define cs1 where "cs1 = (if strip_is_empty (hd chunks) \<and> started then tl chunks else chunks)"
  obtain cl n cs2 where tf: "take_fitting w [] 0 cs1 = (cl, n, cs2)"
    by (cases "take_fitting w [] 0 cs1") auto
  from take_fitting_spec [OF tf] obtain pre where
    pre: "cs1 = pre @ cs2" "n = length (concat pre)" "cs2 \<noteq> [] \<longrightarrow> w < n + length (hd cs2)"
    by auto
  define cs3 where "cs3 = (if cs2 \<noteq> [] \<and> length (hd cs2) > w
                            then snd (handle_long_word cs2 cl n w) else cs2)"
  have res: "snd (wrap_line w started chunks) = cs3"
    unfolding cs3_def using tf unfolding cs1_def by (rule wrap_line_snd)
  have a: "msr cs1 \<le> msr chunks"
    using assms msr_tl [of chunks] by (simp add: cs1_def)
  have a': "msr cs1 < msr chunks" if "cs1 \<noteq> chunks"
    using that assms msr_tl [of chunks] by (simp add: cs1_def split: if_splits)
  have b: "msr cs2 \<le> msr cs1"
    by (simp add: pre(1) msr_append)
  have b': "msr cs2 < msr cs1" if "pre \<noteq> []"
    using that msr_Nil_iff [of pre] by (simp add: pre(1) msr_append)
  have c: "msr cs3 \<le> msr cs2"
    using handle_long_word_msr [of cs2 cl n w] by (simp add: cs3_def)
  show ?thesis
  proof (cases "cs1 = chunks")
    case False
    from a' [OF False] b c show ?thesis unfolding res by linarith
  next
    case same: True
    show ?thesis
    proof (cases "pre = []")
      case False
      from b' [OF False] a c show ?thesis unfolding res by linarith
    next
      case True
      then have eq: "cs2 = chunks" and n0: "n = 0" using pre same by simp_all
      then have long: "w < length (hd cs2)" and ne: "cs2 \<noteq> []" using pre(3) assms by simp_all
      have "cs3 = snd (handle_long_word cs2 cl 0 w)"
        using long ne n0 by (simp add: cs3_def)
      then have "msr cs3 < msr cs2"
        using handle_long_word_msr_strict [OF ne long, of cl] by simp
      then show ?thesis unfolding res eq .
    qed
  qed
qed

text \<open>The outer loop \<open>while chunks\<close>, on the stack and \<open>lines\<close>.\<close>

function wrap_loop :: "nat \<Rightarrow> ustring list \<Rightarrow> ustring list \<Rightarrow> ustring list" where
  "wrap_loop width chunks lines =
     (if chunks = [] then lines
      else (let (cur_line, chunks') = wrap_line width (lines \<noteq> []) chunks
            in wrap_loop width chunks' (if cur_line \<noteq> [] then lines @ [concat cur_line] else lines)))"
  by pat_completeness auto
termination
proof (relation "measure (\<lambda>(width, chunks, lines). msr chunks)")
  show "wf (measure (\<lambda>(width, chunks, lines). msr chunks))" by simp
next
  fix width :: nat and chunks lines :: "ustring list" and x cur_line chunks'
  assume "chunks \<noteq> []" and "x = wrap_line width (lines \<noteq> []) chunks" and "(cur_line, chunks') = x"
  then have "chunks' = snd (wrap_line width (lines \<noteq> []) chunks)" by (metis snd_conv)
  then show "((width, chunks', if cur_line \<noteq> [] then lines @ [concat cur_line] else lines),
              width, chunks, lines) \<in> measure (\<lambda>(width, chunks, lines). msr chunks)"
    using wrap_line_decreases [OF \<open>chunks \<noteq> []\<close>] by simp
qed

declare wrap_loop.simps [simp del]

text \<open>\<open>_wrap_chunks\<close> raises \<open>ValueError\<close> for a width that is not positive; \<open>wrap\<close>
  is \<open>textwrap.wrap(text, width)\<close>.\<close>

definition wrap_chunks :: "int \<Rightarrow> ustring list \<Rightarrow> error + ustring list" where
  "wrap_chunks width chunks =
     (if width \<le> 0 then Inl InvalidWidth else Inr (wrap_loop (nat width) chunks []))"

definition wrap :: "charclasses \<Rightarrow> ustring \<Rightarrow> int \<Rightarrow> error + ustring list" where
  "wrap cc t width = wrap_chunks width (split_chunks cc t)"




section \<open>Page-Flow Engine\<close>


subsection \<open>Strict: \<open>Layout\<close> and \<open>build_summary_pdf\<close> of \<open>generate_app_summary_pdf.py\<close>\<close>

record s_layout =
  s_commands :: "ustring list"
  s_y :: int


definition s_init :: s_layout where
  "s_init = \<lparr> s_commands = [], s_y = TOP \<rparr>"

text \<open>\<open>self.builder.text(x, self.y, text, font, size); self.y -= advance\<close>.\<close>

definition s_draw :: "s_layout \<Rightarrow> int \<Rightarrow> ustring \<Rightarrow> ustring \<Rightarrow> nat \<Rightarrow> int \<Rightarrow> s_layout" where
  "s_draw l x t font fsize advance =
     \<lparr> s_commands = s_text (s_commands l) x (s_y l) t font fsize, s_y = s_y l - advance \<rparr>"

definition s_ensure_room :: "s_layout \<Rightarrow> int \<Rightarrow> error + unit" where
  "s_ensure_room l min_y = (if s_y l < min_y then Inl ContentOverflow else Inr ())"




text \<open>The loop over wrapped lines, shared by \<open>paragraph\<close> (at \<open>LEFT\<close>) and the
  continuation lines of \<open>bullet\<close> (at \<open>LEFT + 14\<close>): room is checked before each line.\<close>

fun s_lines :: "s_layout \<Rightarrow> int \<Rightarrow> ustring list \<Rightarrow> error + s_layout" where
  "s_lines l x [] = Inr l"
| "s_lines l x (line # rest) =
     (case s_ensure_room l S_BOTTOM of
        Inl e \<Rightarrow> Inl e
      | Inr _ \<Rightarrow> s_lines (s_draw l x line (ustr ''F1'') 950 12) x rest)"

definition s_paragraph :: "charclasses \<Rightarrow> s_layout \<Rightarrow> ustring \<Rightarrow> int \<Rightarrow> error + s_layout" where
  "s_paragraph cc l t width_chars =
     (case wrap cc t width_chars of
        Inl e \<Rightarrow> Inl e
      | Inr lines \<Rightarrow> s_lines l S_LEFT lines)"

definition s_bullet :: "charclasses \<Rightarrow> s_layout \<Rightarrow> ustring \<Rightarrow> int \<Rightarrow> error + s_layout" where
  "s_bullet cc l t width_chars =
     (case wrap cc t width_chars of
        Inl e \<Rightarrow> Inl e
      | Inr [] \<Rightarrow> Inr l
      | Inr (first # rest) \<Rightarrow>
          (case s_ensure_room l S_BOTTOM of
             Inl e \<Rightarrow> Inl e
           | Inr _ \<Rightarrow>
               s_lines (s_draw l (S_LEFT + 2) (ustr ''- '' @ first) (ustr ''F1'') 950 12)
                 (S_LEFT + 14) rest))"






subsection \<open>Auto-paginate: \<open>Layout\<close> and \<open>write_walkthrough\<close> of \<open>generate_technical_walkthrough_pdf.py\<close>\<close>

record w_layout =
  w_pages :: "ustring list list"
  w_y :: int


definition w_init :: w_layout where
  "w_init = \<lparr> w_pages = [[]], w_y = TOP \<rparr>"

definition w_next_page_if_needed :: "w_layout \<Rightarrow> int \<Rightarrow> w_layout" where
  "w_next_page_if_needed l required_height =
     (if w_y l - required_height < W_BOTTOM
      then \<lparr> w_pages = new_page (w_pages l), w_y = TOP \<rparr>
      else l)"

text \<open>The three statements every drawing method consists of:
  \<open>self._next_page_if_needed(required); self.builder.text(x, self.y, text, font, size);
  self.y -= advance\<close>.\<close>

definition w_draw ::
  "w_layout \<Rightarrow> int \<Rightarrow> int \<Rightarrow> ustring \<Rightarrow> ustring \<Rightarrow> nat \<Rightarrow> int \<Rightarrow> error + w_layout" where
  "w_draw l required_height x t font fsize advance =
     (let l = w_next_page_if_needed l required_height
      in case w_text (w_pages l) x (w_y l) t font fsize of
           Inl e \<Rightarrow> Inl e
         | Inr pages \<Rightarrow> Inr \<lparr> w_pages = pages, w_y = w_y l - advance \<rparr>)"





fun w_lines :: "w_layout \<Rightarrow> int \<Rightarrow> ustring list \<Rightarrow> error + w_layout" where
  "w_lines l x [] = Inr l"
| "w_lines l x (line # rest) =
     (case w_draw l 12 x line (ustr ''F1'') 1000 12 of
        Inl e \<Rightarrow> Inl e
      | Inr l' \<Rightarrow> w_lines l' x rest)"

definition w_paragraph :: "charclasses \<Rightarrow> w_layout \<Rightarrow> ustring \<Rightarrow> int \<Rightarrow> error + w_layout" where
  "w_paragraph cc l t width_chars =
     (case wrap cc t width_chars of
        Inl e \<Rightarrow> Inl e
      | Inr lines \<Rightarrow> w_lines l W_LEFT lines)"

definition w_bullet :: "charclasses \<Rightarrow> w_layout \<Rightarrow> ustring \<Rightarrow> int \<Rightarrow> error + w_layout" where
  "w_bullet cc l t width_chars =
     (case wrap cc t width_chars of
        Inl e \<Rightarrow> Inl e
      | Inr [] \<Rightarrow> Inr l
      | Inr (first # rest) \<Rightarrow>
          (case w_draw l 12 (W_LEFT + 2) (ustr ''- '' @ first) (ustr ''F1'') 1000 12 of
             Inl e \<Rightarrow> Inl e
           | Inr l' \<Rightarrow> w_lines l' (W_LEFT + 16) rest))"









section \<open>The output format, as the specification gives it\<close>

text \<open>
  These definitions follow the specification's description of the file (its section on
  external interfaces), not the source: the two prolog lines of a content stream, the
  footer line, and a stream object with its \<open>/Length\<close>.
\<close>

definition spec_prolog :: "ustring list" where
  "spec_prolog = [ustr ''q 1 1 1 rg 0 0 612 792 re f Q'', ustr ''0 0 0 rg'']"

definition spec_footer :: "nat \<Rightarrow> nat \<Rightarrow> ustring" where
  "spec_footer i n =
     ustr (''BT /F1 9 Tf 48.00 26.00 Td (Page '' @ str_nat i @ '' of '' @ str_nat n @ '') Tj ET'')"

definition spec_stream_object :: "nat \<Rightarrow> bytes \<Rightarrow> bytes" where
  "spec_stream_object k payload =
     str_nat k @ '' 0 obj << /Length '' @ str_nat (length payload) @ '' >> stream'' @ [CHR 0x0A]
     @ payload @ [CHR 0x0A] @ ''endstream endobj'' @ [CHR 0x0A]"

text \<open>
  Reading a decimal number back from the file, as a reader of the cross-reference section
  does: \<open>spec_decimal\<close> gives the value of a non-empty string of decimal digits and
  nothing for any other string.
\<close>

definition digit_value :: "char \<Rightarrow> nat option" where
  "digit_value c =
     (let v = (of_char c :: nat) in if 48 \<le> v \<and> v \<le> 57 then Some (v - 48) else None)"

fun decimal_from :: "nat \<Rightarrow> string \<Rightarrow> nat option" where
  "decimal_from acc [] = Some acc"
| "decimal_from acc (c # cs) =
     (case digit_value c of None \<Rightarrow> None | Some d \<Rightarrow> decimal_from (10 * acc + d) cs)"

definition spec_decimal :: "string \<Rightarrow> nat option" where
  "spec_decimal ds = (if ds = [] then None else decimal_from 0 ds)"

text \<open>
  A file \<open>pdf\<close> is indexed for the object ids \<open>1..n\<close> when it ends with a cross-reference
  section and a trailer of this form, read back from the bytes alone: the line \<open>xref\<close>,
  the line \<open>0 n+1\<close>, the free entry of id 0, one entry \<open>offset 00000 n\<close> per id in order
  (the offset of at least ten digits, of exactly ten when it is below \<open>10^10\<close>, so that
  an entry has 20 bytes), the trailer with \<open>/Size n+1\<close>, and \<open>startxref\<close> with the
  position of the line \<open>xref\<close>; and when for every id \<open>k\<close> the bytes of the file from
  the offset written in the entry of \<open>k\<close> begin with \<open>k 0 obj\<close>.
\<close>

definition spec_indexed :: "bytes \<Rightarrow> nat \<Rightarrow> bool" where
  "spec_indexed pdf n =
     (\<exists>body dsize dstart entries.
        pdf = body @ ''xref'' @ [CHR 0x0A] @ ''0 '' @ dsize @ [CHR 0x0A]
              @ ''0000000000 65535 f '' @ [CHR 0x0A]
              @ concat (map (\<lambda>ds. ds @ '' 00000 n '' @ [CHR 0x0A]) entries)
              @ ''trailer << /Size '' @ dsize @ '' /Root 1 0 R >>'' @ [CHR 0x0A]
              @ ''startxref'' @ [CHR 0x0A] @ dstart @ [CHR 0x0A] @ ''%%EOF'' @ [CHR 0x0A]
        \<and> spec_decimal dsize = Some (n + 1)
        \<and> spec_decimal dstart = Some (length body)
        \<and> length entries = n
        \<and> (\<forall>k\<in>{1 .. n}.
              \<exists>off. spec_decimal (entries ! (k - 1)) = Some off
                    \<and> 10 \<le> length (entries ! (k - 1))
                    \<and> (off < 10000000000 \<longrightarrow> length (entries ! (k - 1)) = 10)
                    \<and> prefix (obj_token k) (drop off pdf)))"

section \<open>Properties of the text escaper\<close>

lemma pdf_escape_Nil: "pdf_escape [] = []"
  by (simp add: pdf_escape_def replace_char_def)

lemma replace_char_Cons:
  "replace_char old new (c # s) = (if c = old then new else [c]) @ replace_char old new s"
  by (simp add: replace_char_def)

lemma replace_char_append:
  "replace_char old new (s @ t) = replace_char old new s @ replace_char old new t"
  by (simp add: replace_char_def)

lemma pdf_escape_Cons: "pdf_escape (c # t) = spec_escape_char c @ pdf_escape t"
  by (simp add: pdf_escape_def replace_char_Cons replace_char_append spec_escape_char_def
      replace_char_def)

lemma pdf_escape_charwise: "pdf_escape t = concat (map spec_escape_char t)"
  by (induction t) (simp_all add: pdf_escape_Nil pdf_escape_Cons)

lemma spec_unescape_escape_char:
  "spec_unescape (spec_escape_char c @ r) = c # spec_unescape r"
proof (cases r)
  case Nil
  then show ?thesis by (simp add: spec_escape_char_def)
next
  case (Cons d r')
  then show ?thesis by (simp add: spec_escape_char_def)
qed

lemma spec_unescape_pdf_escape: "spec_unescape (pdf_escape t) = t"
  by (induction t) (simp_all add: pdf_escape_Nil pdf_escape_Cons spec_unescape_escape_char)

lemma spec_no_bare_paren_escape_char:
  "spec_no_bare_paren (spec_escape_char c @ r) = spec_no_bare_paren r"
proof (cases r)
  case Nil
  then show ?thesis by (simp add: spec_escape_char_def)
next
  case (Cons d r')
  then show ?thesis by (simp add: spec_escape_char_def)
qed

lemma spec_no_bare_paren_pdf_escape: "spec_no_bare_paren (pdf_escape t)"
  by (induction t) (simp_all add: pdf_escape_Nil pdf_escape_Cons spec_no_bare_paren_escape_char)

lemma pdf_escape_scenario:
  "pdf_escape (ustr ''A (test) '' @ [92] @ ustr ''value'')
     = ustr ''A '' @ [92] @ ustr ''(test'' @ [92] @ ustr '') '' @ [92, 92] @ ustr ''value''"
  by (simp add: pdf_escape_def replace_char_def ustr_def)

text \<open>
  Claim C2. For every text \<open>t\<close>, \<open>pdf_escape t\<close> is \<open>t\<close> with every backslash doubled and
  every parenthesis preceded by one backslash (the backslashes the later replacements
  insert are not escaped again); the result has no parenthesis outside an escape pair,
  undoing the escapes gives \<open>t\<close> back, and the text \<open>A (test) \value\<close> (the backslash is
  code point 92) becomes \<open>A \(test\) \\value\<close>.
\<close>

theorem C2_pdf_escape:
  "pdf_escape t = concat (map spec_escape_char t)
   \<and> spec_no_bare_paren (pdf_escape t)
   \<and> spec_unescape (pdf_escape t) = t
   \<and> pdf_escape (ustr ''A (test) '' @ [92] @ ustr ''value'')
       = ustr ''A '' @ [92] @ ustr ''(test'' @ [92] @ ustr '') '' @ [92, 92] @ ustr ''value''"
  using pdf_escape_charwise spec_no_bare_paren_pdf_escape spec_unescape_pdf_escape
    pdf_escape_scenario by blast

theorem C2_pdf_escape_witness:
  "pdf_escape [40, 92, 120] = [92, 40, 92, 92, 120]
   \<and> spec_no_bare_paren (pdf_escape [40, 92, 120])
   \<and> spec_unescape (pdf_escape [40, 92, 120]) = [40, 92, 120]"
  using C2_pdf_escape [of "[40, 92, 120]"] by (simp add: spec_escape_char_def)


section \<open>Properties of the document assembler\<close>

subsection \<open>Offset integrity\<close>

text \<open>The offsets the object loop records, as a function of the position it starts at.\<close>


fun offsets_from :: "nat \<Rightarrow> bytes list \<Rightarrow> nat list" where
  "offsets_from p [] = []"
| "offsets_from p (obj # objs) = p # offsets_from (p + length obj) objs"

lemma s_emit_eq:
  "s_emit objs (pdf, offs) = (pdf @ concat objs, offs @ offsets_from (length pdf) objs)"
  by (induction objs arbitrary: pdf offs) simp_all

lemma length_offsets_from: "length (offsets_from p objs) = length objs"
  by (induction objs arbitrary: p) simp_all

lemma offsets_from_nth:
  "i < length objs \<Longrightarrow> offsets_from p objs ! i = p + length (concat (take i objs))"
proof (induction objs arbitrary: p i)
  case Nil
  then show ?case by simp
next
  case (Cons obj objs)
  then show ?case by (cases i) simp_all
qed

lemma drop_to_object:
  assumes "i < length objs" and "length pre = p"
  shows "drop (p + length (concat (take i objs))) (pre @ concat objs @ rest)
           = objs ! i @ concat (drop (Suc i) objs) @ rest"
proof -
  have "concat objs = concat (take i objs) @ objs ! i @ concat (drop (Suc i) objs)"
    using assms(1) by (metis concat.simps(2) concat_append id_take_nth_drop)
  then show ?thesis using assms(2) by simp
qed

lemma s_emit_xref_eq: "s_emit_xref offs pdf = pdf @ concat (map used_entry offs)"
  by (induction offs arbitrary: pdf) simp_all

lemma str_nat_digit: "n < 10 \<Longrightarrow> str_nat n = [digit n]"
  by (simp add: str_nat.simps)

lemma s_objects_token:
  "i < 7 \<Longrightarrow> prefix (obj_token (Suc i)) (s_objects commands ! i)"
  apply (simp add: less_Suc_eq eval_nat_numeral)
  apply (elim disjE)
  apply (simp_all add: s_objects_def obj_token_def str_nat_digit digit_def catalog_object_def font_object_def content_object_def s_page_object_def)
  done


lemma length_s_objects: "length (s_objects c) = 7"
  by (simp add: s_objects_def)

lemma s_emitted_eq:
  "s_emitted c = (pdf_header @ concat (s_objects c),
                  0 # offsets_from (length pdf_header) (s_objects c))"
  by (simp add: s_emitted_def s_emit_eq)

lemma s_build_bytes_eq:
  "s_build_bytes c = fst (s_emitted c) @ xref_table (s_xref_offsets c)
      @ trailer (length (s_xref_offsets c)) (length (fst (s_emitted c)))"
  by (simp add: s_build_bytes_def s_xref_offsets_def xref_table_def s_emit_xref_eq
      split: prod.splits)

lemma s_offset_lands:
  assumes "1 \<le> k" and "k \<le> 7"
  shows "prefix (obj_token k) (drop (s_xref_offsets c ! k) (s_build_bytes c))"
proof -
  obtain i where k: "k = Suc i" and i: "i < 7"
    using assms by (cases k) auto
  let ?objs = "s_objects c"
  have len: "i < length ?objs" using i by (simp add: length_s_objects)
  have off: "s_xref_offsets c ! k = length pdf_header + length (concat (take i ?objs))"
    using len by (simp add: s_xref_offsets_def s_emitted_eq k offsets_from_nth)
  have "\<exists>rest. s_build_bytes c = pdf_header @ concat ?objs @ rest"
    by (simp add: s_build_bytes_eq s_emitted_eq)
  then obtain rest where "s_build_bytes c = pdf_header @ concat ?objs @ rest" ..
  then have "drop (s_xref_offsets c ! k) (s_build_bytes c)
               = ?objs ! i @ concat (drop (Suc i) ?objs) @ rest"
    using drop_to_object [OF len refl] off by simp
  moreover have "prefix (obj_token k) (?objs ! i)"
    using s_objects_token [OF i] k by simp
  ultimately show ?thesis by (simp add: prefix_prefix)
qed

lemma length_s_xref_offsets: "length (s_xref_offsets c) = 8"
  by (simp add: s_xref_offsets_def s_emitted_eq length_offsets_from length_s_objects)

text \<open>The walkthrough's object table: every id from 1 to \<open>6 + 2 * len(pages)\<close> has an
  object, and each object begins with its own id token.\<close>

definition tokens_ok :: "(nat \<rightharpoonup> bytes) \<Rightarrow> bool" where
  "tokens_ok m = (\<forall>k obj. m k = Some obj \<longrightarrow> prefix (obj_token k) obj)"

lemma tokens_ok_upd:
  "tokens_ok m \<Longrightarrow> prefix (obj_token k) obj \<Longrightarrow> tokens_ok (m(k \<mapsto> obj))"
  by (simp add: tokens_ok_def)

lemma w_page_object_token: "prefix (obj_token k) (w_page_object k c)"
  by (simp add: obj_token_def w_page_object_def)

lemma content_object_token: "prefix (obj_token k) (content_object k s)"
  by (simp add: obj_token_def content_object_def)

lemma font_object_token: "prefix (obj_token k) (font_object k s)"
  by (simp add: obj_token_def font_object_def)

lemma catalog_object_token: "prefix (obj_token (Suc 0)) catalog_object"
  by (simp add: obj_token_def catalog_object_def str_nat_digit digit_def)

lemma w_pages_object_token: "prefix (obj_token 2) (w_pages_object kids)"
  by (simp add: obj_token_def w_pages_object_def str_nat_digit digit_def)

lemma w_page_loop_spec:
  assumes "w_page_loop n idx pages (objs, kids, nxt) = (objs', kids', nxt')"
  shows "dom (map_of objs') = dom (map_of objs) \<union> {nxt ..< nxt + 2 * length pages}
         \<and> (tokens_ok (map_of objs) \<longrightarrow> tokens_ok (map_of objs'))
         \<and> length kids' = length kids + length pages"
  using assms
proof (induction pages arbitrary: idx objs kids nxt)
  case Nil
  then show ?case by simp
next
  case (Cons commands rest)
  let ?o1 = "AList.update nxt (w_page_object nxt (nxt + 1)) objs"
  let ?o2 = "AList.update (nxt + 1) (content_object (nxt + 1) (w_stream idx n commands)) ?o1"
  from Cons.prems have step:
    "w_page_loop n (idx + 1) rest (?o2, kids @ [str_nat nxt @ '' 0 R''], nxt + 2)
       = (objs', kids', nxt')"
    by (simp add: Let_def)
  note ih = Cons.IH [OF step]
  have d: "dom (map_of ?o2) = dom (map_of objs) \<union> {nxt, nxt + 1}"
    by (auto simp: update_conv')
  have t: "tokens_ok (map_of objs) \<Longrightarrow> tokens_ok (map_of ?o2)"
    by (simp add: update_conv' tokens_ok_upd w_page_object_token content_object_token)
  show ?case using ih d t by auto
qed

lemma dom_w_fixed: "dom (map_of w_fixed_objects) = {1, 3, 4, 5, 6}"
  by (auto simp: w_fixed_objects_def update_conv')

lemma tokens_ok_w_fixed: "tokens_ok (map_of w_fixed_objects)"
  by (simp add: w_fixed_objects_def update_conv' tokens_ok_upd font_object_token
      catalog_object_token tokens_ok_def)

lemma w_objects_spec:
  "dom (map_of (w_objects pages)) = {1 .. 6 + 2 * length pages}
   \<and> tokens_ok (map_of (w_objects pages))"
proof -
  obtain objs kids nxt where
    loop: "w_page_loop (length pages) 1 pages (w_fixed_objects, [], 7) = (objs, kids, nxt)"
    by (cases "w_page_loop (length pages) 1 pages (w_fixed_objects, [], 7)") auto
  note sp = w_page_loop_spec [OF loop]
  have eq: "w_objects pages = AList.update 2 (w_pages_object kids) objs"
    using loop by (simp add: w_objects_def)
  have "dom (map_of (w_objects pages)) = {1 .. 6 + 2 * length pages}"
    using sp by (auto simp: eq update_conv' dom_w_fixed)
  moreover have "tokens_ok (map_of (w_objects pages))"
    using sp by (simp add: eq update_conv' tokens_ok_upd w_pages_object_token tokens_ok_w_fixed)
  ultimately show ?thesis by simp
qed

lemma max_key_w_objects: "max_key (w_objects pages) = 6 + 2 * length pages"
proof -
  have "set (map fst (w_objects pages)) = dom (map_of (w_objects pages))"
    by (simp add: dom_map_of_conv_image_fst)
  then have "set (map fst (w_objects pages)) = {1 .. 6 + 2 * length pages}"
    using w_objects_spec by simp
  moreover have "Max {1 .. 6 + 2 * length pages} = 6 + 2 * length pages"
    by (rule Max_eqI) auto
  ultimately show ?thesis unfolding max_key_def by simp
qed


definition obj_of :: "(nat \<times> bytes) list \<Rightarrow> nat \<Rightarrow> bytes" where
  "obj_of objects n = the (map_of objects n)"

lemma w_emit_fst:
  "set ns \<subseteq> dom (map_of objects) \<Longrightarrow>
   fst (w_emit objects ns (pdf, offs)) = pdf @ concat (map (obj_of objects) ns)"
proof (induction ns arbitrary: pdf offs)
  case Nil
  then show ?case by simp
next
  case (Cons n ns)
  then obtain obj where "map_of objects n = Some obj" by auto
  moreover from this have "obj_of objects n = obj" by (simp add: obj_of_def)
  ultimately show ?case using Cons by simp
qed

lemma w_emit_length: "length (snd (w_emit objects ns (pdf, offs))) = length offs"
  by (induction ns arbitrary: pdf offs) (simp_all split: option.splits)

lemma w_emit_frame: "m \<notin> set ns \<Longrightarrow> snd (w_emit objects ns (pdf, offs)) ! m = offs ! m"
  by (induction ns arbitrary: pdf offs) (auto split: option.splits)

lemma w_emit_offset:
  assumes "set ns \<subseteq> dom (map_of objects)" and "distinct ns"
    and "\<forall>n\<in>set ns. n < length offs" and "i < length ns"
  shows "snd (w_emit objects ns (pdf, offs)) ! (ns ! i)
           = length pdf + length (concat (map (obj_of objects) (take i ns)))"
  using assms
proof (induction ns arbitrary: pdf offs i)
  case Nil
  then show ?case by simp
next
  case (Cons n ns)
  then obtain obj where obj: "map_of objects n = Some obj" by auto
  show ?case
  proof (cases i)
    case 0
    have "snd (w_emit objects ns (pdf @ obj, offs[n := length pdf])) ! n
            = offs[n := length pdf] ! n"
      using Cons.prems(2) by (intro w_emit_frame) simp
    then show ?thesis using obj 0 Cons.prems(3) by simp
  next
    case (Suc j)
    have "snd (w_emit objects ns (pdf @ obj, offs[n := length pdf])) ! (ns ! j)
            = length (pdf @ obj) + length (concat (map (obj_of objects) (take j ns)))"
      using Cons.prems Suc by (intro Cons.IH) auto
    moreover have "obj_of objects n = obj" using obj by (simp add: obj_of_def)
    ultimately show ?thesis using obj Suc by simp
  qed
qed

lemma w_emit_xref_eq:
  "\<forall>n\<in>set ns. offs ! n \<noteq> 0 \<Longrightarrow>
   w_emit_xref offs ns pdf = pdf @ concat (map used_entry (map (nth offs) ns))"
  by (induction ns arbitrary: pdf) (simp_all add: Let_def)

lemma map_nth_from_1: "map (nth xs) [1 ..< length xs] = tl xs"
  by (rule nth_equalityI) (simp_all add: nth_tl)

lemma length_pdf_header: "length pdf_header = 15"
  by (simp add: pdf_header_def)

lemma w_emitted_eq:
  "w_emitted pages = w_emit (w_objects pages) [1 ..< 7 + 2 * length pages]
                       (pdf_header, replicate (7 + 2 * length pages) 0)"
proof -
  have "max_key (w_objects pages) + 1 = 7 + 2 * length pages"
    by (simp add: max_key_w_objects)
  then show ?thesis unfolding w_emitted_def w_emitted_of_def Let_def by (simp only:)
qed

lemma w_ids_present: "set [1 ..< 7 + 2 * length pages] \<subseteq> dom (map_of (w_objects pages))"
  using w_objects_spec [of pages] by auto

lemma length_w_xref_offsets: "length (w_xref_offsets pages) = 7 + 2 * length pages"
  by (simp add: w_xref_offsets_def w_emitted_eq w_emit_length)

lemma w_offset_eq:
  assumes "1 \<le> k" and "k \<le> 6 + 2 * length pages"
  shows "w_xref_offsets pages ! k
           = length pdf_header
             + length (concat (take (k - 1) (map (obj_of (w_objects pages)) [1 ..< 7 + 2 * length pages])))"
proof -
  let ?ns = "[1 ..< 7 + 2 * length pages]"
  have i: "k - 1 < length ?ns" using assms by simp
  have k: "?ns ! (k - 1) = k" using assms by simp
  have "snd (w_emit (w_objects pages) ?ns (pdf_header, replicate (7 + 2 * length pages) 0)) ! (?ns ! (k - 1))
          = length pdf_header + length (concat (map (obj_of (w_objects pages)) (take (k - 1) ?ns)))"
    by (rule w_emit_offset [OF w_ids_present _ _ i]) simp_all
  then show ?thesis by (simp only: k w_xref_offsets_def w_emitted_eq take_map)
qed

lemma w_offset_nonzero:
  "1 \<le> k \<Longrightarrow> k \<le> 6 + 2 * length pages \<Longrightarrow> w_xref_offsets pages ! k \<noteq> 0"
  by (simp add: w_offset_eq length_pdf_header)

lemma w_build_bytes_eq:
  "w_build_bytes pages = fst (w_emitted pages) @ xref_table (w_xref_offsets pages)
      @ trailer (7 + 2 * length pages) (length (fst (w_emitted pages)))"
proof -
  let ?ns = "[1 ..< 7 + 2 * length pages]"
  have nz: "\<forall>n\<in>set ?ns. w_xref_offsets pages ! n \<noteq> 0"
    using w_offset_nonzero by simp
  have "map (nth (w_xref_offsets pages)) ?ns = tl (w_xref_offsets pages)"
    using map_nth_from_1 [of "w_xref_offsets pages"] by (simp add: length_w_xref_offsets)
  then have "w_emit_xref (w_xref_offsets pages) ?ns pdf
               = pdf @ concat (map used_entry (tl (w_xref_offsets pages)))" for pdf
    using w_emit_xref_eq [OF nz] by simp
  moreover have "max_key (w_objects pages) + 1 = 7 + 2 * length pages"
    by (simp add: max_key_w_objects)
  moreover obtain pdf offs where e: "w_emitted pages = (pdf, offs)"
    by (cases "w_emitted pages") auto
  moreover from e have o: "w_xref_offsets pages = offs" by (simp add: w_xref_offsets_def)
  moreover have "length offs = 7 + 2 * length pages"
    using length_w_xref_offsets [of pages] o by simp
  ultimately show ?thesis
    unfolding w_build_bytes_def w_serialize_def Let_def w_emitted_def [symmetric]
    by (simp add: xref_table_def del: upt_Suc)
qed

lemma w_offset_lands:
  assumes "1 \<le> k" and "k \<le> 6 + 2 * length pages"
  shows "prefix (obj_token k) (drop (w_xref_offsets pages ! k) (w_build_bytes pages))"
proof -
  let ?ns = "[1 ..< 7 + 2 * length pages]"
  let ?objs = "map (obj_of (w_objects pages)) ?ns"
  have i: "k - 1 < length ?objs" using assms by simp
  have "fst (w_emitted pages) = pdf_header @ concat ?objs"
    by (simp only: w_emitted_eq w_emit_fst [OF w_ids_present])
  then obtain rest where "w_build_bytes pages = pdf_header @ concat ?objs @ rest"
    by (simp add: w_build_bytes_eq)
  then have "drop (w_xref_offsets pages ! k) (w_build_bytes pages)
               = ?objs ! (k - 1) @ concat (drop (Suc (k - 1)) ?objs) @ rest"
    using drop_to_object [OF i refl] w_offset_eq [OF assms] by simp
  moreover have "?objs ! (k - 1) = obj_of (w_objects pages) k"
    using assms by simp
  moreover have "prefix (obj_token k) (obj_of (w_objects pages) k)"
  proof -
    have "k \<in> dom (map_of (w_objects pages))" using w_objects_spec [of pages] assms by simp
    then obtain obj where "map_of (w_objects pages) k = Some obj" by auto
    then show ?thesis using w_objects_spec [of pages] by (simp add: tokens_ok_def obj_of_def)
  qed
  ultimately show ?thesis by (simp add: prefix_prefix)
qed


text \<open>The number \<open>N\<close> of objects each builder emits: seven for the one-page summary;
  catalog, page tree, four fonts and two per page for the walkthrough.\<close>

definition s_object_count :: nat where
  "s_object_count = 7"

definition w_object_count :: "ustring list list \<Rightarrow> nat" where
  "w_object_count pages = 6 + 2 * length pages"

subsection \<open>Reading the cross-reference section back\<close>

lemma digit_value_digit: "d < 10 \<Longrightarrow> digit_value (digit d) = Some d"
  apply (simp add: less_Suc_eq eval_nat_numeral)
  apply (elim disjE)
  apply (simp_all add: digit_def digit_value_def)
  done

lemma decimal_from_append:
  "decimal_from a (xs @ ys) =
     (case decimal_from a xs of None \<Rightarrow> None | Some b \<Rightarrow> decimal_from b ys)"
  by (induction xs arbitrary: a) (simp_all split: option.splits)

lemma decimal_from_str_nat: "decimal_from 0 (str_nat n) = Some n"
proof (induction n rule: str_nat.induct)
  case (1 n)
  show ?case
  proof (cases "n < 10")
    case True
    then show ?thesis by (subst str_nat.simps) (simp add: digit_value_digit)
  next
    case False
    have "n mod 10 < 10" by simp
    then show ?thesis
      using False "1.IH"
      by (subst str_nat.simps) (simp add: decimal_from_append digit_value_digit)
  qed
qed

lemma str_nat_nonempty: "str_nat n \<noteq> []"
  by (subst str_nat.simps) simp

lemma decimal_from_zeros: "decimal_from 0 (replicate m (CHR ''0'') @ ds) = decimal_from 0 ds"
  by (induction m) (simp_all add: digit_value_def)

lemma spec_decimal_str_nat: "spec_decimal (str_nat n) = Some n"
  by (simp add: spec_decimal_def str_nat_nonempty decimal_from_str_nat)

lemma spec_decimal_fmt_010d: "spec_decimal (fmt_010d n) = Some n"
  by (simp add: spec_decimal_def fmt_010d_def str_nat_nonempty decimal_from_zeros
      decimal_from_str_nat)

lemma length_str_nat: "0 < k \<Longrightarrow> n < 10 ^ k \<Longrightarrow> length (str_nat n) \<le> k"
proof (induction n arbitrary: k rule: str_nat.induct)
  case (1 n)
  show ?case
  proof (cases "n < 10")
    case True
    then show ?thesis using "1.prems" by (subst str_nat.simps) simp
  next
    case False
    then obtain j where k: "k = Suc j" using "1.prems" by (cases k) auto
    have "0 < j" using False "1.prems" k by (cases j) auto
    moreover have "n div 10 < 10 ^ j" using "1.prems"(2) k by (simp add: less_mult_imp_div_less mult.commute)
    ultimately have "length (str_nat (n div 10)) \<le> j" using "1.IH" [OF False] by blast
    then show ?thesis using False k by (subst str_nat.simps) simp
  qed
qed

lemma length_fmt_010d: "10 \<le> length (fmt_010d n)"
  by (simp add: fmt_010d_def)

lemma length_fmt_010d_eq: "n < 10000000000 \<Longrightarrow> length (fmt_010d n) = 10"
  using length_str_nat [of 10 n] by (simp add: fmt_010d_def)

lemma spec_indexedI:
  assumes pdf: "pdf = body @ xref_table offs @ trailer (length offs) (length body)"
    and len: "length offs = n + 1"
    and lands: "\<And>k. 1 \<le> k \<Longrightarrow> k \<le> n \<Longrightarrow> prefix (obj_token k) (drop (offs ! k) pdf)"
  shows "spec_indexed pdf n"
proof -
  let ?entries = "map fmt_010d (tl offs)"
  have c: "concat (map used_entry (tl offs))
             = concat (map (\<lambda>ds. ds @ '' 00000 n '' @ [CHR 0x0A]) ?entries)"
    by (rule arg_cong [where f = concat]) (simp add: used_entry_def)
  have 1: "pdf = body @ ''xref'' @ [CHR 0x0A] @ ''0 '' @ str_nat (n + 1) @ [CHR 0x0A]
              @ ''0000000000 65535 f '' @ [CHR 0x0A]
              @ concat (map (\<lambda>ds. ds @ '' 00000 n '' @ [CHR 0x0A]) ?entries)
              @ ''trailer << /Size '' @ str_nat (n + 1) @ '' /Root 1 0 R >>'' @ [CHR 0x0A]
              @ ''startxref'' @ [CHR 0x0A] @ str_nat (length body) @ [CHR 0x0A] @ ''%%EOF'' @ [CHR 0x0A]"
    unfolding pdf xref_table_def xref_head_def free_entry_def trailer_def c len by simp
  have 2: "length ?entries = n" using len by simp
  have 3: "\<forall>k\<in>{1 .. n}.
              \<exists>off. spec_decimal (?entries ! (k - 1)) = Some off
                    \<and> 10 \<le> length (?entries ! (k - 1))
                    \<and> (off < 10000000000 \<longrightarrow> length (?entries ! (k - 1)) = 10)
                    \<and> prefix (obj_token k) (drop off pdf)"
  proof
    fix k assume "k \<in> {1 .. n}"
    then have k: "1 \<le> k" "k \<le> n" by simp_all
    then have "?entries ! (k - 1) = fmt_010d (offs ! k)"
      using len by (simp add: nth_tl)
    then show "\<exists>off. spec_decimal (?entries ! (k - 1)) = Some off
                    \<and> 10 \<le> length (?entries ! (k - 1))
                    \<and> (off < 10000000000 \<longrightarrow> length (?entries ! (k - 1)) = 10)
                    \<and> prefix (obj_token k) (drop off pdf)"
      using lands [OF k] spec_decimal_fmt_010d length_fmt_010d length_fmt_010d_eq
      by (intro exI [of _ "offs ! k"]) simp
  qed
  show ?thesis
    unfolding spec_indexed_def
    using 1 2 3 spec_decimal_str_nat by blast
qed

text \<open>
  Claim C1. In both builders the objects have the ids \<open>1..N\<close>, and the emitted bytes
  are indexed for them: the cross-reference section written in the file has one entry per
  id, the offset written in the entry of \<open>k\<close> is a position in the file at which the
  token stream \<open>k 0 obj\<close> begins, for every \<open>k\<close> in \<open>1..N\<close>, the trailer's \<open>/Size\<close>
  is \<open>N+1\<close>, and \<open>startxref\<close> gives the position of the cross-reference section.
\<close>

theorem C1_offset_integrity:
  "length (s_objects commands) = s_object_count
   \<and> spec_indexed (s_build_bytes commands) s_object_count
   \<and> dom (map_of (w_objects pages)) = {1 .. w_object_count pages}
   \<and> spec_indexed (w_build_bytes pages) (w_object_count pages)"
proof -
  have s1: "length (s_objects commands) = s_object_count"
    by (simp add: length_s_objects s_object_count_def)
  have s2: "spec_indexed (s_build_bytes commands) s_object_count"
    unfolding s_object_count_def
    by (rule spec_indexedI [OF s_build_bytes_eq _ s_offset_lands])
       (simp_all add: length_s_xref_offsets)
  have w1: "dom (map_of (w_objects pages)) = {1 .. w_object_count pages}"
    using w_objects_spec [of pages] by (simp add: w_object_count_def)
  have "w_build_bytes pages = fst (w_emitted pages) @ xref_table (w_xref_offsets pages)
          @ trailer (length (w_xref_offsets pages)) (length (fst (w_emitted pages)))"
    using w_build_bytes_eq [of pages] by (simp add: length_w_xref_offsets)
  then have w2: "spec_indexed (w_build_bytes pages) (w_object_count pages)"
    unfolding w_object_count_def
    by (rule spec_indexedI [OF _ _ w_offset_lands]) (simp_all add: length_w_xref_offsets)
  show ?thesis by (intro conjI s1 s2 w1 w2)
qed

theorem C1_offset_integrity_witness:
  "length (s_objects [ustr ''x'']) = 7
   \<and> spec_indexed (s_build_bytes [ustr ''x'']) 7
   \<and> (7::nat) \<in> {1 .. 7}
   \<and> dom (map_of (w_objects [[ustr ''x''], []])) = {1 .. 10}
   \<and> spec_indexed (w_build_bytes [[ustr ''x''], []]) 10
   \<and> (10::nat) \<in> {1 .. 10}"
  using C1_offset_integrity [of "[ustr ''x'']" "[[ustr ''x''], []]"]
  by (simp add: s_object_count_def w_object_count_def)

section \<open>Properties of the line wrapper\<close>

subsection \<open>Line lengths\<close>

lemma length_concat_butlast: "length (concat (butlast xs)) \<le> length (concat xs)"
  by (induction xs) auto

lemma handle_long_word_fst:
  assumes "1 \<le> w" and "n \<le> w" and "cs \<noteq> []"
  shows "\<exists>piece. fst (handle_long_word cs cl n w) = cl @ [piece] \<and> n + length piece \<le> w"
proof -
  obtain c rest where cs: "cs = c # rest" using assms(3) by (cases cs) auto
  have "rfind_hyphen c (w - n) < int (w - n)" by (rule rfind_hyphen_lt)
  then have "0 < rfind_hyphen c (w - n) \<Longrightarrow> nat (rfind_hyphen c (w - n)) + 1 \<le> w - n"
    by linarith
  then show ?thesis using assms(1,2) by (auto simp: cs Let_def)
qed

lemma wrap_line_length:
  assumes "1 \<le> w"
  shows "length (concat (fst (wrap_line w started chunks))) \<le> w"
proof -
  define cs1 where "cs1 = (if strip_is_empty (hd chunks) \<and> started then tl chunks else chunks)"
  obtain cl n cs2 where tf: "take_fitting w [] 0 cs1 = (cl, n, cs2)"
    by (cases "take_fitting w [] 0 cs1") auto
  from take_fitting_spec [OF tf] obtain pre where
    pre: "cl = pre" "n = length (concat pre)" "pre \<noteq> [] \<longrightarrow> n \<le> w"
    by auto
  then have n: "n \<le> w" "length (concat cl) = n" by (cases "pre = []"; simp)+
  define cl2 where "cl2 = (if cs2 \<noteq> [] \<and> length (hd cs2) > w
                            then fst (handle_long_word cs2 cl n w) else cl)"
  have l2: "length (concat cl2) \<le> w"
  proof (cases "cs2 \<noteq> [] \<and> length (hd cs2) > w")
    case True
    then obtain piece where "fst (handle_long_word cs2 cl n w) = cl @ [piece]" "n + length piece \<le> w"
      using handle_long_word_fst [OF assms n(1), of cs2 cl] by auto
    then show ?thesis using True n(2) by (simp add: cl2_def)
  next
    case False
    then have "cl2 = cl" by (auto simp: cl2_def)
    then show ?thesis using n by simp
  qed
  have res: "fst (wrap_line w started chunks)
               = (if cl2 \<noteq> [] \<and> strip_is_empty (last cl2) then butlast cl2 else cl2)"
    unfolding wrap_line_def cs1_def [symmetric] Let_def tf cl2_def
    by (simp split: prod.splits)
  show ?thesis
    using l2 length_concat_butlast [of cl2] by (simp add: res)
qed

lemma wrap_loop_lengths:
  assumes "1 \<le> w" and "\<forall>l\<in>set lines. length l \<le> w"
  shows "\<forall>l\<in>set (wrap_loop w chunks lines). length l \<le> w"
  using assms
proof (induction w chunks lines rule: wrap_loop.induct)
  case (1 width chunks lines)
  show ?case
  proof (cases "chunks = []")
    case True
    then show ?thesis using "1.prems" by (subst wrap_loop.simps) simp
  next
    case False
    obtain cur_line chunks' where wl: "wrap_line width (lines \<noteq> []) chunks = (cur_line, chunks')"
      by (cases "wrap_line width (lines \<noteq> []) chunks") auto
    let ?lines' = "if cur_line \<noteq> [] then lines @ [concat cur_line] else lines"
    have "length (concat cur_line) \<le> width"
      using wrap_line_length [OF "1.prems"(1), of "lines \<noteq> []" chunks] wl by simp
    then have "\<forall>l\<in>set ?lines'. length l \<le> width" using "1.prems"(2) by auto
    then have "\<forall>l\<in>set (wrap_loop width chunks' ?lines'). length l \<le> width"
      using "1.IH" [OF False wl [symmetric] refl "1.prems"(1)] by blast
    then show ?thesis using False wl by (subst wrap_loop.simps) simp
  qed
qed

lemma wrap_lengths:
  assumes "0 < w"
  shows "\<exists>lines. wrap cc t w = Inr lines \<and> (\<forall>l\<in>set lines. int (length l) \<le> w)"
proof -
  have "\<forall>l\<in>set (wrap_loop (nat w) (split_chunks cc t) []). length l \<le> nat w"
    using assms by (intro wrap_loop_lengths) auto
  then show ?thesis using assms by (auto simp: wrap_def wrap_chunks_def)
qed


subsection \<open>Whitespace-only text\<close>

lemma set_expandtabs: "set (expandtabs ts col s) \<subseteq> insert 32 (set s)"
  by (induction s arbitrary: col) auto

lemma munge_whitespace_blank:
  assumes "list_all is_ws t"
  shows "list_all (\<lambda>c. c = 32) (munge_whitespace t)"
proof -
  have "\<forall>c\<in>set (expandtabs 8 0 t). is_ws c"
    using assms set_expandtabs [of 8 0 t] by (auto simp: list_all_iff is_ws_def)
  then show ?thesis by (simp add: munge_whitespace_def list_all_iff)
qed

lemma split_from_end: "length t \<le> i \<Longrightarrow> split_from cc t i = []"
  by (subst split_from.simps) simp

lemma split_from_blank:
  assumes "list_all (\<lambda>c. c = 32) m" and "m \<noteq> []"
  shows "split_from cc m 0 = [m]"
proof -
  have ws: "\<forall>c\<in>set m. is_ws c" using assms(1) by (auto simp: list_all_iff is_ws_def)
  then have tw: "takeWhile is_ws m = m" by (simp add: takeWhile_eq_all_conv)
  have "is_ws (m ! 0)" using ws assms(2) by (cases m) auto
  then have "match_end cc m 0 = length m" by (simp add: match_end_def tw)
  then show ?thesis using assms(2) by (subst split_from.simps) (simp add: split_from_end)
qed

lemma split_chunks_blank:
  assumes "list_all is_ws t"
  shows "split_chunks cc t = [] \<or> (\<exists>m. split_chunks cc t = [m] \<and> list_all (\<lambda>c. c = 32) m)"
proof (cases "munge_whitespace t = []")
  case True
  then show ?thesis by (simp add: split_chunks_def split_from_end)
next
  case False
  then show ?thesis
    using split_from_blank [OF munge_whitespace_blank [OF assms] False]
      munge_whitespace_blank [OF assms]
    by (simp add: split_chunks_def)
qed

lemma rfind_hyphen_none: "45 \<notin> set chunk \<Longrightarrow> rfind_hyphen chunk e = - 1"
  by (induction e) (auto dest: nth_mem)

lemma wrap_loop_Nil: "wrap_loop w [] lines = lines"
  by (subst wrap_loop.simps) simp

lemma wrap_line_blank:
  assumes "list_all (\<lambda>c. c = 32) m" and "1 \<le> w"
  shows "wrap_line w False [m] = ([], if length m \<le> w then [] else [drop w m])"
proof -
  have sp: "strip_is_empty (take k m)" for k
  proof -
    have "\<forall>x\<in>set (take k m). x = 32"
      using assms(1) by (auto simp: list_all_iff dest: in_set_takeD)
    moreover have "py_isspace 32" by (simp add: py_isspace_def)
    ultimately show ?thesis by (auto simp: strip_is_empty_def list_all_iff)
  qed
  have nh: "45 \<notin> set m" using assms(1) by (auto simp: list_all_iff)
  show ?thesis
  proof (cases "length m \<le> w")
    case True
    then show ?thesis using sp [of "length m"] by (simp add: wrap_line_def)
  next
    case False
    then show ?thesis
      using sp [of w] assms(2) by (simp add: wrap_line_def Let_def rfind_hyphen_none [OF nh])
  qed
qed

lemma wrap_loop_blank:
  assumes "list_all (\<lambda>c. c = 32) m" and "1 \<le> w"
  shows "wrap_loop w [m] [] = []"
  using assms
proof (induction "length m" arbitrary: m rule: less_induct)
  case less
  show ?case
  proof (cases "length m \<le> w")
    case True
    then show ?thesis
      using wrap_line_blank [OF less.prems]
      by (subst wrap_loop.simps) (simp add: wrap_loop_Nil)
  next
    case False
    have "list_all (\<lambda>c. c = 32) (drop w m)"
      using less.prems(1) by (auto simp: list_all_iff dest: in_set_dropD)
    moreover have "length (drop w m) < length m" using False less.prems(2) by simp
    ultimately have "wrap_loop w [drop w m] [] = []"
      using less.hyps less.prems(2) by blast
    then show ?thesis
      using wrap_line_blank [OF less.prems] False
      by (subst wrap_loop.simps) simp
  qed
qed

lemma wrap_blank:
  assumes "list_all is_ws t" and "0 < w"
  shows "wrap cc t w = Inr []"
proof -
  from split_chunks_blank [OF assms(1), of cc]
  have "wrap_loop (nat w) (split_chunks cc t) [] = []"
    using assms(2) wrap_loop_blank [of _ "nat w"] by (auto simp: wrap_loop_Nil)
  then show ?thesis using assms(2) by (simp add: wrap_def wrap_chunks_def)
qed




subsection \<open>A long word\<close>

lemma wrap_loop_step:
  "chunks \<noteq> [] \<Longrightarrow> wrap_line w (lines \<noteq> []) chunks = (cl, cs') \<Longrightarrow>
   wrap_loop w chunks lines = wrap_loop w cs' (if cl \<noteq> [] then lines @ [concat cl] else lines)"
  by (subst wrap_loop.simps) simp

lemma split_chunks_abcdefgh:
  "split_chunks latin1_classes (ustr ''abcdefgh'') = [[97, 98, 99, 100, 101, 102, 103, 104]]"
  by (simp add: split_chunks_def munge_whitespace_def ustr_def is_ws_def split_from.simps
      match_end_def word_end.simps hyphen_break_def holds_at_def end_of_word_def
      dashes_ahead_def dashes_at_def dash_run_def)

lemma rfind_hyphen_abcdefgh:
  "rfind_hyphen [97, 98, 99, 100, 101, 102, 103, 104] 3 = - 1"
  "rfind_hyphen [100, 101, 102, 103, 104] 3 = - 1"
  by (simp_all add: eval_nat_numeral)

lemma wrap_line_abcdefgh:
  "wrap_line 3 False [[97, 98, 99, 100, 101, 102, 103, 104]]
     = ([[97, 98, 99]], [[100, 101, 102, 103, 104]])"
  "wrap_line 3 True [[100, 101, 102, 103, 104]] = ([[100, 101, 102]], [[103, 104]])"
  "wrap_line 3 True [[103, 104]] = ([[103, 104]], [])"
  by (simp_all add: wrap_line_def rfind_hyphen_abcdefgh Let_def strip_is_empty_def py_isspace_def)

lemma wrap_loop_abcdefgh:
  "wrap_loop 3 [[97, 98, 99, 100, 101, 102, 103, 104]] []
     = [[97, 98, 99], [100, 101, 102], [103, 104]]"
proof -
  have "wrap_loop 3 [[97, 98, 99, 100, 101, 102, 103, 104]] []
          = wrap_loop 3 [[100, 101, 102, 103, 104]] [[97, 98, 99]]"
    using wrap_loop_step [of "[[97, 98, 99, 100, 101, 102, 103, 104]]" 3 "[]"] wrap_line_abcdefgh(1)
    by simp
  also have "\<dots> = wrap_loop 3 [[103, 104]] [[97, 98, 99], [100, 101, 102]]"
    using wrap_loop_step [of "[[100, 101, 102, 103, 104]]" 3 "[[97, 98, 99]]"] wrap_line_abcdefgh(2)
    by simp
  also have "\<dots> = wrap_loop 3 [] [[97, 98, 99], [100, 101, 102], [103, 104]]"
    using wrap_loop_step [of "[[103, 104]]" 3 "[[97, 98, 99], [100, 101, 102]]"] wrap_line_abcdefgh(3)
    by simp
  finally show ?thesis by (simp add: wrap_loop_Nil)
qed

lemma wrap_long_word:
  "wrap latin1_classes (ustr ''abcdefgh'') 3
     = Inr [[97, 98, 99], [100, 101, 102], [103, 104]]"
  by (simp add: wrap_def wrap_chunks_def split_chunks_abcdefgh wrap_loop_abcdefgh)


text \<open>
  Claim C3, as the specification states it, fails: the word \<open>abcdefgh\<close> wrapped at
  width 3 is not kept whole on a line of length 8, it is broken into \<open>abc\<close>, \<open>def\<close>
  and \<open>gh\<close>.
\<close>

theorem C3_long_word_counterexample:
  "wrap latin1_classes (ustr ''abcdefgh'') 3 = Inr [ustr ''abc'', ustr ''def'', ustr ''gh'']
   \<and> wrap latin1_classes (ustr ''abcdefgh'') 3 \<noteq> Inr [ustr ''abcdefgh'']"
  using wrap_long_word by (simp add: ustr_def)

text \<open>
  Claim C3, amended. For every text and every width \<open>w > 0\<close> the wrapper returns lines,
  and every line has length at most \<open>w\<close>, with no exception: a word longer than \<open>w\<close>
  is broken across lines.
\<close>

theorem C3_line_lengths:
  assumes "0 < w"
  shows "\<exists>lines. wrap cc t w = Inr lines \<and> (\<forall>l\<in>set lines. int (length l) \<le> w)"
  using assms by (rule wrap_lengths)

theorem C3_line_lengths_witness:
  "(0::int) < 3
   \<and> (\<exists>lines. wrap latin1_classes (ustr ''abcdefgh'') 3 = Inr lines
         \<and> list_all (\<lambda>l. int (length l) \<le> 3) lines)"
  using C3_line_lengths [of 3 latin1_classes "ustr ''abcdefgh''"]
  by (simp add: list_all_iff)


section \<open>Properties of the page flow\<close>

subsection \<open>Blank text\<close>

lemma split_chunks_nbsp:
  "split_chunks latin1_classes [160, 32, 160] = [[160], [32], [160]]"
  by (simp add: split_chunks_def munge_whitespace_def is_ws_def split_from.simps
      match_end_def word_end.simps hyphen_break_def holds_at_def end_of_word_def
      dashes_ahead_def dashes_at_def dash_run_def)

lemma wrap_line_nbsp:
  "wrap_line 102 False [[160], [32], [160]] = ([[160], [32]], [])"
  by (simp add: wrap_line_def Let_def strip_is_empty_def py_isspace_def)

lemma wrap_nbsp: "wrap latin1_classes [160, 32, 160] 102 = Inr [[160, 32]]"
proof -
  have "wrap_loop 102 [[160], [32], [160]] [] = wrap_loop 102 [] [[160, 32]]"
    using wrap_loop_step [of "[[160], [32], [160]]" 102 "[]"] wrap_line_nbsp by simp
  then show ?thesis
    by (simp add: wrap_def wrap_chunks_def split_chunks_nbsp wrap_loop_Nil)
qed

text \<open>
  Claim C6, as stated, fails for whitespace the wrapper does not recognise: the text
  of a no-break space, a space and a no-break space (code points 160, 32, 160) is
  whitespace only for \<open>str.isspace\<close>, yet the wrapper returns one line, and \<open>paragraph\<close>
  of either layout draws a command and moves the cursor by 12.
\<close>

theorem C6_unicode_space_counterexample:
  "list_all py_isspace [160, 32, 160]
   \<and> wrap latin1_classes [160, 32, 160] 102 = Inr [[160, 32]]
   \<and> s_paragraph latin1_classes s_init [160, 32, 160] 102
       = Inr \<lparr> s_commands = [text_command (ustr ''F1'') 950 50 760 [160, 32]], s_y = 748 \<rparr>
   \<and> w_paragraph latin1_classes w_init [160, 32, 160] 102
       = Inr \<lparr> w_pages = [[text_command (ustr ''F1'') 1000 48 760 [160, 32]]], w_y = 748 \<rparr>"
  by (simp add: wrap_nbsp py_isspace_def s_paragraph_def w_paragraph_def s_init_def w_init_def
      s_ensure_room_def s_draw_def s_text_def w_draw_def w_next_page_if_needed_def w_text_def
      pdf_escape_def replace_char_def TOP_def S_BOTTOM_def W_BOTTOM_def S_LEFT_def W_LEFT_def)

text \<open>
  Claim C6, amended. For an empty text or a text made only of the characters the
  wrapper takes as whitespace (tab, line feed, vertical tab, form feed, carriage return
  and space) and a width \<open>w > 0\<close>, the wrapper returns no line, and \<open>paragraph\<close> and
  \<open>bullet\<close> of either layout return the layout unchanged: no command is added and the
  cursor stays where it was.
\<close>

theorem C6_blank_text:
  assumes "list_all is_ws t" and "0 < w"
  shows "wrap cc t w = Inr []
         \<and> s_paragraph cc sl t w = Inr sl \<and> s_bullet cc sl t w = Inr sl
         \<and> w_paragraph cc wl t w = Inr wl \<and> w_bullet cc wl t w = Inr wl"
  using wrap_blank [OF assms, of cc]
  by (simp add: s_paragraph_def s_bullet_def w_paragraph_def w_bullet_def)

theorem C6_blank_text_witness:
  "list_all is_ws [32, 9, 10] \<and> (0::int) < 5
   \<and> wrap latin1_classes [32, 9, 10] 5 = Inr []
   \<and> s_paragraph latin1_classes s_init [32, 9, 10] 5 = Inr s_init
   \<and> s_bullet latin1_classes s_init [32, 9, 10] 5 = Inr s_init
   \<and> w_paragraph latin1_classes w_init [32, 9, 10] 5 = Inr w_init
   \<and> w_bullet latin1_classes w_init [32, 9, 10] 5 = Inr w_init"
  using C6_blank_text [of "[32, 9, 10]" 5 latin1_classes s_init w_init]
  by (simp add: is_ws_def)

subsection \<open>Strict mode: overflow fails the build\<close>















subsection \<open>The order of insertion into the object dictionary\<close>

text \<open>The second half of the walkthrough's \<open>build\<close> reads the dictionary of objects by
  key, in ascending order of the ids: the order in which the objects were inserted
  does not reach the output.\<close>

lemma w_emit_cong:
  "map_of objects1 = map_of objects2 \<Longrightarrow> w_emit objects1 nums st = w_emit objects2 nums st"
proof (induction nums arbitrary: st)
  case Nil
  then show ?case by simp
next
  case (Cons n nums)
  then show ?case by (cases st) (simp split: option.splits)
qed

lemma max_key_cong: "map_of objects1 = map_of objects2 \<Longrightarrow> max_key objects1 = max_key objects2"
proof -
  assume "map_of objects1 = map_of objects2"
  then have "dom (map_of objects1) = dom (map_of objects2)" by simp
  then have "fst ` set objects1 = fst ` set objects2" by (simp add: dom_map_of_conv_image_fst)
  then show ?thesis by (simp add: max_key_def)
qed

lemma w_serialize_cong:
  assumes "map_of objects1 = map_of objects2"
  shows "w_serialize objects1 = w_serialize objects2"
proof -
  have "w_emitted_of objects1 = w_emitted_of objects2"
    unfolding w_emitted_of_def max_key_cong [OF assms] by (simp only: w_emit_cong [OF assms])
  then show ?thesis unfolding w_serialize_def max_key_cong [OF assms] by (simp only:)
qed

subsection \<open>Where escaping happens\<close>

text \<open>The content stream of page \<open>i + 1\<close> of the walkthrough is object \<open>8 + 2 * i\<close>.\<close>

lemma w_page_loop_frame:
  "w_page_loop n idx pages (objs, kids, nxt) = (objs', kids', nxt') \<Longrightarrow> k < nxt \<Longrightarrow>
   map_of objs' k = map_of objs k"
proof (induction pages arbitrary: idx objs kids nxt)
  case Nil
  then show ?case by simp
next
  case (Cons commands rest)
  let ?o1 = "AList.update nxt (w_page_object nxt (nxt + 1)) objs"
  let ?o2 = "AList.update (nxt + 1) (content_object (nxt + 1) (w_stream idx n commands)) ?o1"
  from Cons.prems(1) have step:
    "w_page_loop n (idx + 1) rest (?o2, kids @ [str_nat nxt @ '' 0 R''], nxt + 2)
       = (objs', kids', nxt')"
    by (simp add: Let_def)
  have "map_of objs' k = map_of ?o2 k"
    using Cons.IH [OF step] Cons.prems(2) by simp
  then show ?case using Cons.prems(2) by (simp add: update_conv')
qed

lemma w_page_loop_content:
  "w_page_loop n idx pages (objs, kids, nxt) = (objs', kids', nxt') \<Longrightarrow> i < length pages \<Longrightarrow>
   map_of objs' (nxt + 2 * i + 1)
     = Some (content_object (nxt + 2 * i + 1) (w_stream (idx + i) n (pages ! i)))"
proof (induction pages arbitrary: idx objs kids nxt i)
  case Nil
  then show ?case by simp
next
  case (Cons commands rest)
  let ?o1 = "AList.update nxt (w_page_object nxt (nxt + 1)) objs"
  let ?o2 = "AList.update (nxt + 1) (content_object (nxt + 1) (w_stream idx n commands)) ?o1"
  from Cons.prems(1) have step:
    "w_page_loop n (idx + 1) rest (?o2, kids @ [str_nat nxt @ '' 0 R''], nxt + 2)
       = (objs', kids', nxt')"
    by (simp add: Let_def)
  show ?case
  proof (cases i)
    case 0
    have "map_of objs' (nxt + 1) = map_of ?o2 (nxt + 1)"
      by (rule w_page_loop_frame [OF step]) simp
    then show ?thesis using 0 by (simp add: update_conv')
  next
    case (Suc j)
    then have "j < length rest" using Cons.prems(2) by simp
    from Cons.IH [OF step this] show ?thesis using Suc by simp
  qed
qed

lemma w_objects_content:
  assumes "i < length pages"
  shows "map_of (w_objects pages) (8 + 2 * i)
           = Some (content_object (8 + 2 * i) (w_stream (i + 1) (length pages) (pages ! i)))"
proof -
  obtain objs kids nxt where
    loop: "w_page_loop (length pages) 1 pages (w_fixed_objects, [], 7) = (objs, kids, nxt)"
    by (cases "w_page_loop (length pages) 1 pages (w_fixed_objects, [], 7)") auto
  have eq: "w_objects pages = AList.update 2 (w_pages_object kids) objs"
    using loop by (simp add: w_objects_def)
  have "map_of objs (7 + 2 * i + 1)
          = Some (content_object (7 + 2 * i + 1) (w_stream (1 + i) (length pages) (pages ! i)))"
    by (rule w_page_loop_content [OF loop assms])
  then show ?thesis by (simp add: eq update_conv' add.commute)
qed

lemma sublist_trans: "sublist xs ys \<Longrightarrow> sublist ys zs \<Longrightarrow> sublist xs zs"
  unfolding sublist_def by (metis append.assoc)

lemma sublist_concat: "x \<in> set xs \<Longrightarrow> sublist x (concat xs)"
proof -
  assume "x \<in> set xs"
  then obtain ys zs where "xs = ys @ x # zs" by (auto dest: split_list)
  then show ?thesis by (simp add: sublist_def) blast
qed

lemma w_object_in_output:
  assumes "map_of (w_objects pages) k = Some obj"
  shows "sublist obj (w_build_bytes pages)"
proof -
  let ?ns = "[1 ..< 7 + 2 * length pages]"
  have "k \<in> dom (map_of (w_objects pages))" using assms by auto
  then have k: "k \<in> set ?ns" using w_objects_spec [of pages] by auto
  have "obj_of (w_objects pages) k = obj" using assms by (simp add: obj_of_def)
  then have "obj \<in> set (map (obj_of (w_objects pages)) ?ns)" using k by force
  then have "sublist obj (concat (map (obj_of (w_objects pages)) ?ns))" by (rule sublist_concat)
  moreover have "fst (w_emitted pages) = pdf_header @ concat (map (obj_of (w_objects pages)) ?ns)"
    by (simp only: w_emitted_eq w_emit_fst [OF w_ids_present])
  ultimately have "sublist obj (fst (w_emitted pages))"
    by (metis sublist_append_leftI sublist_trans)
  then show ?thesis
    by (metis w_build_bytes_eq sublist_append_rightI sublist_trans)
qed

lemma prolog_eq: "prolog = spec_prolog"
  by (simp add: prolog_def spec_prolog_def PAGE_WIDTH_def PAGE_HEIGHT_def str_nat.simps digit_def)

lemma content_object_eq: "content_object k payload = spec_stream_object k payload"
  by (simp add: content_object_def spec_stream_object_def)

lemma w_footer_eq: "w_footer idx n = spec_footer idx n"
  by (simp add: w_footer_def spec_footer_def fmt_2f_int_def str_int_def W_LEFT_def
      str_nat.simps digit_def)

lemma s_object_in_output:
  assumes "obj \<in> set (s_objects commands)"
  shows "sublist obj (s_build_bytes commands)"
proof -
  have "sublist obj (concat (s_objects commands))" using assms by (rule sublist_concat)
  moreover have "\<exists>rest. s_build_bytes commands = pdf_header @ concat (s_objects commands) @ rest"
    by (simp add: s_build_bytes_eq s_emitted_eq)
  ultimately show ?thesis by (metis sublist_appendI sublist_trans)
qed

lemma s_stream_in_output:
  "sublist (spec_stream_object 7 (encode_latin1 (join [10] (spec_prolog @ commands))))
     (s_build_bytes commands)"
proof -
  have "content_object 7 (s_stream commands) \<in> set (s_objects commands)"
    by (simp add: s_objects_def)
  then have "sublist (content_object 7 (s_stream commands)) (s_build_bytes commands)"
    by (rule s_object_in_output)
  then show ?thesis by (simp add: content_object_eq s_stream_def prolog_eq)
qed

lemma w_stream_in_output:
  assumes "i < length pages"
  shows "sublist (spec_stream_object (8 + 2 * i)
           (encode_latin1 (join [10] (spec_prolog @ pages ! i @ [spec_footer (i + 1) (length pages)]))))
         (w_build_bytes pages)"
  using w_object_in_output [OF w_objects_content [OF assms]]
  by (simp add: content_object_eq w_stream_def prolog_eq w_footer_eq)

lemma w_text_eq:
  "pages \<noteq> [] \<Longrightarrow>
   w_text pages x y t font fsize
     = Inr (butlast pages @ [last pages @ [text_command font fsize x y (pdf_escape t)]])"
proof -
  assume ne: "pages \<noteq> []"
  then have "pages = butlast pages @ [last pages]" by simp
  then obtain ps p where p: "pages = ps @ [p]" by blast
  show ?thesis by (simp add: w_text_def p)
qed

lemma text_command_inj:
  "text_command font fsize x y a = text_command font fsize x y b \<longleftrightarrow> a = b"
  by (simp add: text_command_def)

text \<open>
  Claim C8, as the specification states it, fails: the command that \<open>text\<close> stores for
  the text \<open>(\<close> holds the escaped text (backslash, parenthesis), not the text itself,
  in both builders.
\<close>

theorem C8_stored_text_counterexample:
  "s_text [] 50 760 [40] (ustr ''F1'') 950 = [text_command (ustr ''F1'') 950 50 760 [92, 40]]
   \<and> s_text [] 50 760 [40] (ustr ''F1'') 950 \<noteq> [text_command (ustr ''F1'') 950 50 760 [40]]
   \<and> w_text [[]] 48 760 [40] (ustr ''F1'') 1000
       = Inr [[text_command (ustr ''F1'') 1000 48 760 [92, 40]]]
   \<and> w_text [[]] 48 760 [40] (ustr ''F1'') 1000
       \<noteq> Inr [[text_command (ustr ''F1'') 1000 48 760 [40]]]"
  by (simp add: s_text_def w_text_def pdf_escape_def replace_char_def text_command_inj)

text \<open>
  Claim C8, amended. Escaping is applied exactly once, when \<open>text\<close> creates the
  command: the builder stores the formatted command string with \<open>pdf_escape(text)\<close>
  between its parentheses, after the commands it already holds (on the last page, in the
  walkthrough). \<open>build\<close> does not escape: the content stream of a page, as it stands in
  the output bytes, is the page's stored commands, each unchanged, after the two prolog
  lines (and before the footer, in the walkthrough), joined by line feeds and encoded
  in Latin-1. Undoing the escapes of the stored text gives the text back.
\<close>

theorem C8_escaped_once:
  "s_text commands x y t font fsize = commands @ [text_command font fsize x y (pdf_escape t)]
   \<and> sublist (spec_stream_object 7 (encode_latin1 (join [10]
                (spec_prolog @ commands @ [text_command font fsize x y (pdf_escape t)]))))
        (s_build_bytes (s_text commands x y t font fsize))
   \<and> (pages \<noteq> [] \<longrightarrow>
        w_text pages x y t font fsize
          = Inr (butlast pages @ [last pages @ [text_command font fsize x y (pdf_escape t)]]))
   \<and> (\<forall>i<length pages.
        sublist (spec_stream_object (8 + 2 * i) (encode_latin1 (join [10]
                   (spec_prolog @ pages ! i @ [spec_footer (i + 1) (length pages)]))))
          (w_build_bytes pages))
   \<and> spec_unescape (pdf_escape t) = t"
proof -
  have a: "s_text commands x y t font fsize = commands @ [text_command font fsize x y (pdf_escape t)]"
    by (simp add: s_text_def)
  have b: "sublist (spec_stream_object 7 (encode_latin1 (join [10]
                (spec_prolog @ commands @ [text_command font fsize x y (pdf_escape t)]))))
        (s_build_bytes (s_text commands x y t font fsize))"
    unfolding a by (rule s_stream_in_output)
  have c: "pages \<noteq> [] \<longrightarrow>
        w_text pages x y t font fsize
          = Inr (butlast pages @ [last pages @ [text_command font fsize x y (pdf_escape t)]])"
    using w_text_eq [of pages x y t font fsize] by blast
  have d: "\<forall>i<length pages.
        sublist (spec_stream_object (8 + 2 * i) (encode_latin1 (join [10]
                   (spec_prolog @ pages ! i @ [spec_footer (i + 1) (length pages)]))))
          (w_build_bytes pages)"
    using w_stream_in_output [of _ pages] by blast
  have e: "spec_unescape (pdf_escape t) = t" by (rule spec_unescape_pdf_escape)
  show ?thesis by (intro conjI a b c d e)
qed

theorem C8_escaped_once_witness:
  "s_text [[65]] 50 760 [40] (ustr ''F1'') 950
     = [[65]] @ [text_command (ustr ''F1'') 950 50 760 (pdf_escape [40])]
   \<and> sublist (spec_stream_object 7 (encode_latin1 (join [10]
                (spec_prolog @ [[65]] @ [text_command (ustr ''F1'') 950 50 760 (pdf_escape [40])]))))
        (s_build_bytes (s_text [[65]] 50 760 [40] (ustr ''F1'') 950))
   \<and> [[[65]], [[66]]] \<noteq> ([] :: ustring list list)
   \<and> w_text [[[65]], [[66]]] 50 760 [40] (ustr ''F1'') 950
       = Inr (butlast [[[65]], [[66]]]
              @ [last [[[65]], [[66]]] @ [text_command (ustr ''F1'') 950 50 760 (pdf_escape [40])]])
   \<and> (0::nat) < length ([[[65]], [[66]]] :: ustring list list)
   \<and> sublist (spec_stream_object (8 + 2 * 0) (encode_latin1 (join [10]
                (spec_prolog @ [[[65]], [[66]]] ! 0 @ [spec_footer (0 + 1) (length ([[[65]], [[66]]] :: ustring list list))]))))
        (w_build_bytes [[[65]], [[66]]])
   \<and> spec_unescape (pdf_escape [40]) = [40]"
proof -
  note c = C8_escaped_once [of "[[65]]" 50 760 "[40]" "ustr ''F1''" 950 "[[[65]], [[66]]]"]
  note c1 = c [THEN conjunct1]
  note c2 = c [THEN conjunct2, THEN conjunct1]
  note c3 = c [THEN conjunct2, THEN conjunct2, THEN conjunct1]
  note c4 = c [THEN conjunct2, THEN conjunct2, THEN conjunct2, THEN conjunct1]
  note c5 = c [THEN conjunct2, THEN conjunct2, THEN conjunct2, THEN conjunct2]
  have n: "[[[65]], [[66]]] \<noteq> ([] :: ustring list list)" by simp
  have l: "(0::nat) < length ([[[65]], [[66]]] :: ustring list list)" by simp
  show ?thesis
    by (intro conjI c1 c2 n c3 [rule_format, OF n] l c4 [rule_format, OF l] c5)
qed

subsection \<open>Auto-paginate: where body commands are drawn\<close>






















subsection \<open>The cursor and the bottom margin\<close>

















end
